theory Spec2Isabelle
  imports Main "HOL-Library.Sublist"
begin

section \<open>JavaScript values read from the microservice\<close>

text \<open>
  A JavaScript string is a sequence of UTF-16 code units. Strings that carry text (DOM
  text and attribute values, JSON strings, messages) are lists of code units, each given
  by its number; \<open>ascii\<close>
  turns a literal of the source into one. Names fixed by the source (tags, attribute and
  property names, style properties, notification types, URL paths) stay literals.
\<close>

type_synonym jstring = "int list"

definition ascii :: "string \<Rightarrow> jstring" where
  "ascii s = map of_char s"

text \<open>
  The userscript (\<^verbatim>\<open>static/lidarr-userscript.user.js\<close>) only ever inspects the parsed JSON
  payloads of the microservice through property reads and truthiness tests. A value is
  therefore a JSON value, extended with \<open>JUndefined\<close> for the result of reading a
  property that is not there. Numbers are integers (the payloads carry counts and ids).
  An object is an association list; a property read takes the first entry of a key.
\<close>

datatype json =
    JUndefined
  | JNull
  | JBool bool
  | JNum int
  | JStr jstring
  | JArr "json list"
  | JObj "(string \<times> json) list"

text \<open>JavaScript truthiness (\<open>if (v)\<close>, \<open>v || w\<close>).\<close>

fun js_truthy :: "json \<Rightarrow> bool" where
  "js_truthy JUndefined = False"
| "js_truthy JNull = False"
| "js_truthy (JBool b) = b"
| "js_truthy (JNum n) = (n \<noteq> 0)"
| "js_truthy (JStr s) = (s \<noteq> [])"
| "js_truthy (JArr xs) = True"
| "js_truthy (JObj kvs) = True"

text \<open>
  \<open>v.name\<close> for the names the script reads (\<open>success\<close>, \<open>error\<close>, \<open>title\<close>,
  \<open>artist\<close>, \<open>foreignAlbumId\<close>, \<open>lidarrAlbumId\<close>, \<open>successful\<close>, \<open>total_tracks\<close>,
  \<open>failed\<close>): none of them is a built-in property of a string, number, boolean or array,
  so the read yields \<open>undefined\<close> there. On \<open>null\<close> and \<open>undefined\<close> the read throws a
  TypeError, which is the \<open>Inl\<close> branch (the message text depends on the engine; it is
  only ever shown in a notification).
\<close>

fun lookup_prop :: "json \<Rightarrow> string \<Rightarrow> json" where
  "lookup_prop (JObj kvs) name = (case map_of kvs name of Some v \<Rightarrow> v | None \<Rightarrow> JUndefined)"
| "lookup_prop v name = JUndefined"

definition type_error_message :: jstring where
  "type_error_message = ascii ''Cannot read properties of null''"

fun get_prop :: "json \<Rightarrow> string \<Rightarrow> jstring + json" where
  "get_prop JNull name = Inl type_error_message"
| "get_prop JUndefined name = Inl type_error_message"
| "get_prop v name = Inr (lookup_prop v name)"

text \<open>\<open>a || b\<close>\<close>

definition js_or :: "json \<Rightarrow> json \<Rightarrow> json" where
  "js_or a b = (if js_truthy a then a else b)"

section \<open>The request helper\<close>

text \<open>
  \<open>apiRequest(endpoint, data)\<close> returns a promise. It is settled by exactly one of the
  three callbacks of the userscript manager's HTTP call: \<open>onload\<close> (whose response text
  either parses as JSON or makes \<open>JSON.parse\<close> throw: \<open>OnLoad None\<close>), \<open>onerror\<close>,
  \<open>ontimeout\<close>. When the manager's API is missing the promise is rejected at once. A
  settled promise is \<open>Inr result\<close> (resolved) or \<open>Inl message\<close> (rejected with
  \<open>new Error(message)\<close>).
\<close>

datatype request = Request (endpoint: string) (payload: "json option")

datatype xhr_event = OnLoad "json option" | OnError | OnTimeout

fun apiRequest :: "bool \<Rightarrow> xhr_event \<Rightarrow> jstring + json" where
  "apiRequest False ev = Inl (ascii ''GM.xmlHttpRequest not available'')"
| "apiRequest True (OnLoad (Some result)) = Inr result"
| "apiRequest True (OnLoad None) = Inl (ascii ''Invalid JSON response'')"
| "apiRequest True OnError = Inl (ascii ''Network error'')"
| "apiRequest True OnTimeout = Inl (ascii ''Request timeout'')"

text \<open>
  An \<open>async\<close> function runs synchronously up to its first \<open>await\<close> and is resumed
  later, when the awaited promise has settled; other callbacks may run in between. Such a
  function is modelled by two functions: the part before the \<open>await\<close>, which either
  returns or names the request it waits for, and the part after it, which takes the
  settled promise.
\<close>

datatype 'a phase = Return 'a | Await request

section \<open>Page context and the album-info cache\<close>

text \<open>
  \<open>getAlbumIdFromUrl\<close>: the first match of \<open>/\/album\/([a-f0-9-]+)/\<close> in the path; the
  group is greedy.
\<close>

definition is_id_char :: "char \<Rightarrow> bool" where
  "is_id_char c = (c \<in> set ''abcdef0123456789-'')"

fun strip_prefix :: "string \<Rightarrow> string \<Rightarrow> string option" where
  "strip_prefix [] s = Some s"
| "strip_prefix (p # ps) [] = None"
| "strip_prefix (p # ps) (c # cs) = (if p = c then strip_prefix ps cs else None)"

definition album_id_here :: "string \<Rightarrow> string option" where
  "album_id_here s =
     (case strip_prefix ''/album/'' s of
        None \<Rightarrow> None
      | Some rest \<Rightarrow>
          (if takeWhile is_id_char rest = [] then None
           else Some (takeWhile is_id_char rest)))"

fun getAlbumIdFromUrl :: "string \<Rightarrow> string option" where
  "getAlbumIdFromUrl [] = None"
| "getAlbumIdFromUrl (c # cs) =
     (case album_id_here (c # cs) of
        Some i \<Rightarrow> Some i
      | None \<Rightarrow> getAlbumIdFromUrl cs)"

record album_info =
  title :: json
  artist :: json
  foreignAlbumId :: json
  lidarrAlbumId :: json

text \<open>
  The module-level variables \<open>cachedAlbumInfo\<close> and \<open>lastAlbumId\<close> (both \<open>null\<close>
  initially), together with \<open>window.location.pathname\<close>.
\<close>

record agent_state =
  pathname :: string
  cachedAlbumInfo :: "album_info option"
  lastAlbumId :: "string option"

definition initial_state :: "string \<Rightarrow> agent_state" where
  "initial_state p = \<lparr>pathname = p, cachedAlbumInfo = None, lastAlbumId = None\<rparr>"

definition navigate :: "string \<Rightarrow> agent_state \<Rightarrow> agent_state" where
  "navigate p s = s\<lparr>pathname := p\<rparr>"

text \<open>\<open>extractAlbumInfo(forceRefresh)\<close> up to \<open>await apiRequest(...)\<close>.\<close>

definition extractAlbumInfo_begin ::
  "bool \<Rightarrow> agent_state \<Rightarrow> album_info option phase \<times> agent_state" where
  "extractAlbumInfo_begin forceRefresh s =
     (case getAlbumIdFromUrl (pathname s) of
        None \<Rightarrow> (Return None, s)
      | Some albumId \<Rightarrow>
          if \<not> forceRefresh \<and> cachedAlbumInfo s \<noteq> None \<and> lastAlbumId s = Some albumId
          then (Return (cachedAlbumInfo s), s)
          else
            (Await (Request (''/api/album-info/'' @ albumId) None),
             if lastAlbumId s \<noteq> Some albumId
             then s\<lparr>cachedAlbumInfo := None, lastAlbumId := Some albumId\<rparr>
             else s))"

text \<open>
  \<open>extractAlbumInfo\<close> from the settled request on: the body of the \<open>try\<close> after the
  \<open>await\<close>, and the \<open>catch\<close>. Neither the local \<open>albumId\<close> nor the path is read again.
\<close>

definition album_info_of :: "json \<Rightarrow> album_info" where
  "album_info_of result =
     \<lparr>title = lookup_prop result ''title'',
      artist = lookup_prop result ''artist'',
      foreignAlbumId = lookup_prop result ''foreignAlbumId'',
      lidarrAlbumId = js_or (lookup_prop result ''lidarrAlbumId'') JNull\<rparr>"

definition extractAlbumInfo_resume ::
  "jstring + json \<Rightarrow> agent_state \<Rightarrow> album_info option \<times> agent_state" where
  "extractAlbumInfo_resume settled s =
     (case settled of
        Inl message \<Rightarrow> (None, s)
      | Inr result \<Rightarrow>
          (case get_prop result ''success'' of
             Inl message \<Rightarrow> (None, s)
           | Inr success \<Rightarrow>
               if js_truthy success
               then (Some (album_info_of result),
                     s\<lparr>cachedAlbumInfo := Some (album_info_of result)\<rparr>)
               else (None, s)))"

text \<open>
  One call of \<open>extractAlbumInfo\<close> run from start to end with nothing in between; \<open>net\<close>
  gives the way the request settles. Calls that overlap, or a page that changes while a
  request is out, are described with the two parts above: the second part then starts
  from the state the response finds. The value a call returns depends only on the state
  at its start and on its own response.
\<close>

definition extractAlbumInfo ::
  "bool \<Rightarrow> (request \<Rightarrow> jstring + json) \<Rightarrow> agent_state \<Rightarrow> album_info option \<times> agent_state" where
  "extractAlbumInfo forceRefresh net s =
     (case extractAlbumInfo_begin forceRefresh s of
        (Return r, s') \<Rightarrow> (r, s')
      | (Await rq, s') \<Rightarrow> extractAlbumInfo_resume (net rq) s')"

text \<open>
  A request fails when the promise is rejected (network error, timeout, unparsable text,
  no API), when the payload is \<open>null\<close>, or when its \<open>success\<close> is falsy.
\<close>

definition request_failed :: "jstring + json \<Rightarrow> bool" where
  "request_failed settled =
     (case settled of
        Inl message \<Rightarrow> True
      | Inr result \<Rightarrow>
          (case get_prop result ''success'' of
             Inl message \<Rightarrow> True
           | Inr success \<Rightarrow> \<not> js_truthy success))"

section \<open>Strings\<close>

text \<open>The characters the script writes that are not ASCII.\<close>

definition musical_note :: jstring where
  "musical_note = [0xD83C, 0xDFB5]"

definition hourglass :: jstring where
  "hourglass = [0x23F3]"

definition check_mark :: jstring where
  "check_mark = [0x2713]"

definition ballot_x :: jstring where
  "ballot_x = [0x2717]"

text \<open>\<open>s.includes(sub)\<close>, and the substring test of an attribute selector \<open>[a*="sub"]\<close>.\<close>

fun str_includes :: "'a list \<Rightarrow> 'a list \<Rightarrow> bool" where
  "str_includes [] sub = (sub = [])"
| "str_includes (c # cs) sub = (prefix sub (c # cs) \<or> str_includes cs sub)"

text \<open>
  The characters matched by \<open>\s\<close> and removed by \<open>trim()\<close>: TAB, LF, VT, FF, CR,
  SPACE, U+00A0, U+1680, U+2000 to U+200A, U+2028, U+2029, U+202F, U+205F, U+3000 and
  U+FEFF.
\<close>

definition is_ws :: "int \<Rightarrow> bool" where
  "is_ws c =
     (c \<in> set [0x09, 0x0A, 0x0B, 0x0C, 0x0D, 0x20, 0xA0, 0x1680, 0x2028, 0x2029, 0x202F,
                0x205F, 0x3000, 0xFEFF] \<or>
      (0x2000 \<le> c \<and> c \<le> 0x200A))"

definition skip_ws :: "jstring \<Rightarrow> jstring" where
  "skip_ws s = dropWhile is_ws s"

definition trim :: "jstring \<Rightarrow> jstring" where
  "trim s = rev (dropWhile is_ws (rev (dropWhile is_ws s)))"

definition is_digit :: "int \<Rightarrow> bool" where
  "is_digit c = (of_char CHR ''0'' \<le> c \<and> c \<le> of_char CHR ''9'')"

text \<open>
  \<open>text.match(/0\s*\/\s*\d+/)\<close> as a truth value: \<open>zero_of_n_here\<close> matches the pattern
  at the start of the string (one digit suffices for \<open>\d+\<close>), \<open>zero_of_n\<close> at any
  position, since the pattern has no anchor.
\<close>

definition zero_of_n_here :: "jstring \<Rightarrow> bool" where
  "zero_of_n_here s =
     (case s of
        [] \<Rightarrow> False
      | c # cs \<Rightarrow>
          c = of_char CHR ''0'' \<and>
          (case skip_ws cs of
             [] \<Rightarrow> False
           | d # ds \<Rightarrow>
               d = of_char CHR ''/'' \<and>
               (case skip_ws ds of [] \<Rightarrow> False | e # es \<Rightarrow> is_digit e)))"

fun zero_of_n :: "jstring \<Rightarrow> bool" where
  "zero_of_n [] = False"
| "zero_of_n (c # cs) = (zero_of_n_here (c # cs) \<or> zero_of_n cs)"

section \<open>The host page\<close>

text \<open>
  A DOM node is an element (tag in lower case, attributes, inline style properties,
  children) or a text node. A node inside a tree is addressed by its path, the list of
  child indices from the root.
\<close>

datatype node =
    Element (tag: string) (attrs: "(string \<times> jstring) list")
      (styles: "(string \<times> string) list") (children: "node list")
  | Text jstring

type_synonym path = "nat list"

fun is_tag :: "string \<Rightarrow> node \<Rightarrow> bool" where
  "is_tag t (Element t' a st cs) = (t' = t)"
| "is_tag t (Text s) = False"

fun attr :: "string \<Rightarrow> node \<Rightarrow> jstring option" where
  "attr name (Element t a st cs) = map_of a name"
| "attr name (Text s) = None"

text \<open>\<open>[name*="sub"]\<close> and \<open>[name="v"]\<close>\<close>

definition attr_contains :: "string \<Rightarrow> string \<Rightarrow> node \<Rightarrow> bool" where
  "attr_contains name sub n =
     (case attr name n of None \<Rightarrow> False | Some v \<Rightarrow> str_includes v (ascii sub))"

definition attr_equals :: "string \<Rightarrow> string \<Rightarrow> node \<Rightarrow> bool" where
  "attr_equals name v n = (attr name n = Some (ascii v))"

text \<open>\<open>.cls\<close>: the class attribute, split at ASCII whitespace, has the token.\<close>

definition is_html_space :: "int \<Rightarrow> bool" where
  "is_html_space c = (c \<in> set [0x09, 0x0A, 0x0C, 0x0D, 0x20])"

fun tokens :: "jstring \<Rightarrow> jstring \<Rightarrow> jstring list" where
  "tokens cur [] = (if cur = [] then [] else [cur])"
| "tokens cur (c # cs) =
     (if is_html_space c then (if cur = [] then tokens [] cs else cur # tokens [] cs)
      else tokens (cur @ [c]) cs)"

definition has_class :: "string \<Rightarrow> node \<Rightarrow> bool" where
  "has_class cls n =
     (case attr ''class'' n of None \<Rightarrow> False | Some v \<Rightarrow> ascii cls \<in> set (tokens [] v))"

text \<open>\<open>node.textContent\<close>\<close>

fun textContent :: "node \<Rightarrow> jstring" where
  "textContent (Text s) = s"
| "textContent (Element t a st cs) = concat (map textContent cs)"

text \<open>
  The first node in document order that satisfies \<open>P\<close>, the node itself included
  (\<open>find_first\<close>), and \<open>n.querySelector(P)\<close>, which looks at the descendants only.
\<close>

fun find_first :: "(node \<Rightarrow> bool) \<Rightarrow> node \<Rightarrow> node option"
  and find_first_list :: "(node \<Rightarrow> bool) \<Rightarrow> node list \<Rightarrow> node option" where
  "find_first P (Text s) = (if P (Text s) then Some (Text s) else None)"
| "find_first P (Element t a st cs) =
     (if P (Element t a st cs) then Some (Element t a st cs) else find_first_list P cs)"
| "find_first_list P [] = None"
| "find_first_list P (c # cs) =
     (case find_first P c of Some m \<Rightarrow> Some m | None \<Rightarrow> find_first_list P cs)"

fun querySelector :: "(node \<Rightarrow> bool) \<Rightarrow> node \<Rightarrow> node option" where
  "querySelector P (Element t a st cs) = find_first_list P cs"
| "querySelector P (Text s) = None"

text \<open>The same search, returning the path of the node found.\<close>

fun find_path :: "(node \<Rightarrow> bool) \<Rightarrow> node \<Rightarrow> path option"
  and find_path_list :: "(node \<Rightarrow> bool) \<Rightarrow> nat \<Rightarrow> node list \<Rightarrow> path option" where
  "find_path P (Text s) = (if P (Text s) then Some [] else None)"
| "find_path P (Element t a st cs) =
     (if P (Element t a st cs) then Some [] else find_path_list P 0 cs)"
| "find_path_list P i [] = None"
| "find_path_list P i (c # cs) =
     (case find_path P c of Some p \<Rightarrow> Some (i # p) | None \<Rightarrow> find_path_list P (Suc i) cs)"

fun querySelector_path :: "(node \<Rightarrow> bool) \<Rightarrow> node \<Rightarrow> path option" where
  "querySelector_path P (Element t a st cs) = find_path_list P 0 cs"
| "querySelector_path P (Text s) = None"

text \<open>
  \<open>document.querySelectorAll(P)\<close>: the paths of all nodes that satisfy \<open>P\<close>, in document
  order. The list is static: it is computed once, before the loop over it runs.
\<close>

fun all_paths :: "(node \<Rightarrow> bool) \<Rightarrow> node \<Rightarrow> path list"
  and all_paths_list :: "(node \<Rightarrow> bool) \<Rightarrow> nat \<Rightarrow> node list \<Rightarrow> path list" where
  "all_paths P (Text s) = (if P (Text s) then [[]] else [])"
| "all_paths P (Element t a st cs) =
     (if P (Element t a st cs) then [[]] else []) @ all_paths_list P 0 cs"
| "all_paths_list P i [] = []"
| "all_paths_list P i (c # cs) = map ((#) i) (all_paths P c) @ all_paths_list P (Suc i) cs"

definition querySelectorAll :: "(node \<Rightarrow> bool) \<Rightarrow> node \<Rightarrow> path list" where
  "querySelectorAll P doc = all_paths P doc"

text \<open>The node at a path.\<close>

fun get_node :: "node \<Rightarrow> path \<Rightarrow> node option" where
  "get_node n [] = Some n"
| "get_node (Element t a st cs) (i # p) = (if i < length cs then get_node (cs ! i) p else None)"
| "get_node (Text s) (i # p) = None"

text \<open>\<open>node.closest(P)\<close> for the node at path \<open>p\<close>: the nearest of the node and its ancestors.\<close>

fun closest :: "(node \<Rightarrow> bool) \<Rightarrow> node \<Rightarrow> path \<Rightarrow> node option" where
  "closest P n [] = (if P n then Some n else None)"
| "closest P (Element t a st cs) (i # p) =
     (if i < length cs
      then (case closest P (cs ! i) p of
              Some r \<Rightarrow> Some r
            | None \<Rightarrow> if P (Element t a st cs) then Some (Element t a st cs) else None)
      else None)"
| "closest P (Text s) (i # p) = None"

text \<open>Replacing the node at a path by its image under \<open>f\<close>.\<close>

fun modify :: "(node \<Rightarrow> node) \<Rightarrow> path \<Rightarrow> node \<Rightarrow> node" where
  "modify f [] n = f n"
| "modify f (i # p) (Element t a st cs) =
     (if i < length cs then Element t a st (cs[i := modify f p (cs ! i)])
      else Element t a st cs)"
| "modify f (i # p) (Text s) = Text s"

text \<open>\<open>parent.appendChild(b)\<close>, \<open>node.remove()\<close>, \<open>el.style.prop = v\<close>, \<open>el.innerHTML = text\<close>, \<open>el.disabled = b\<close>\<close>

fun append_child :: "node \<Rightarrow> node \<Rightarrow> node" where
  "append_child b (Element t a st cs) = Element t a st (cs @ [b])"
| "append_child b (Text s) = Text s"

definition appendChild :: "path \<Rightarrow> node \<Rightarrow> node \<Rightarrow> node" where
  "appendChild p b doc = modify (append_child b) p doc"

fun remove_child :: "nat \<Rightarrow> node \<Rightarrow> node" where
  "remove_child i (Element t a st cs) = Element t a st (take i cs @ drop (Suc i) cs)"
| "remove_child i (Text s) = Text s"

definition remove_node :: "path \<Rightarrow> node \<Rightarrow> node" where
  "remove_node p n = (if p = [] then n else modify (remove_child (last p)) (butlast p) n)"

fun assoc_set :: "string \<Rightarrow> 'v \<Rightarrow> (string \<times> 'v) list \<Rightarrow> (string \<times> 'v) list" where
  "assoc_set k v [] = [(k, v)]"
| "assoc_set k v ((k', v') # kvs) =
     (if k' = k then (k, v) # kvs else (k', v') # assoc_set k v kvs)"

fun set_style :: "string \<Rightarrow> string \<Rightarrow> node \<Rightarrow> node" where
  "set_style k v (Element t a st cs) = Element t a (assoc_set k v st) cs"
| "set_style k v (Text s) = Text s"

fun set_innerHTML :: "jstring \<Rightarrow> node \<Rightarrow> node" where
  "set_innerHTML s (Element t a st cs) = Element t a st [Text s]"
| "set_innerHTML s (Text s') = Text s'"

fun set_disabled :: "bool \<Rightarrow> node \<Rightarrow> node" where
  "set_disabled b (Element t a st cs) =
     Element t (if b then assoc_set ''disabled'' [] a
                else filter (\<lambda>kv. fst kv \<noteq> ''disabled'') a) st cs"
| "set_disabled b (Text s) = Text s"

definition is_disabled :: "node \<Rightarrow> bool" where
  "is_disabled n = (attr ''disabled'' n \<noteq> None)"

section \<open>The injectors\<close>

text \<open>The inline style both injectors give their button (\<open>style.cssText\<close>).\<close>

definition icon_styles :: "(string \<times> string) list" where
  "icon_styles =
     [(''cursor'', ''pointer''), (''font-size'', ''12px''), (''padding'', ''0''),
      (''border'', ''none''), (''border-radius'', ''3px''), (''width'', ''24px''),
      (''height'', ''24px''), (''display'', ''inline-flex''), (''align-items'', ''center''),
      (''justify-content'', ''center''), (''margin'', ''0 2px''),
      (''transition'', ''all 0.2s''), (''vertical-align'', ''middle'')]"

definition album_icon :: "jstring \<Rightarrow> node" where
  "album_icon albumTitle =
     Element ''button''
       [(''class'', ascii ''blissful-album-icon IconButton-button-t4C5V Link-link-RInnp''),
        (''aria-label'', ascii ''Download with Blissful''),
        (''title'', ascii ''Download missing tracks from '' @ albumTitle),
        (''type'', ascii ''button'')]
       icon_styles [Text musical_note]"

definition track_icon :: node where
  "track_icon =
     Element ''button''
       [(''class'', ascii ''blissful-track-action-icon IconButton-button-t4C5V Link-link-RInnp''),
        (''aria-label'', ascii ''Download with Blissful''),
        (''title'', ascii ''Download with Blissful''),
        (''type'', ascii ''button'')]
       icon_styles [Text musical_note]"

text \<open>\<open>a[href*="/album/"]\<close>\<close>

definition is_album_link :: "node \<Rightarrow> bool" where
  "is_album_link n = (is_tag ''a'' n \<and> attr_contains ''href'' ''/album/'' n)"

text \<open>
  \<open>hasMissing\<close> of \<open>injectAlbumIcons\<close> for one row: on the wanted/missing page a row is
  missing when it has an album link; on the artist page when the text of its first
  element with \<open>Label\<close> in the class matches the pattern.
\<close>

definition hasMissing :: "bool \<Rightarrow> node \<Rightarrow> bool" where
  "hasMissing isWantedMissingPage row =
     (if isWantedMissingPage then querySelector is_album_link row \<noteq> None
      else (case querySelector (attr_contains ''class'' ''Label'') row of
              None \<Rightarrow> False
            | Some statusLabel \<Rightarrow> zero_of_n (textContent statusLabel)))"

text \<open>The body of the \<open>forEach\<close> of \<open>injectAlbumIcons\<close>, for the cell at path \<open>p\<close>.\<close>

definition injectAlbumIcons_cell :: "bool \<Rightarrow> path \<Rightarrow> node \<Rightarrow> node" where
  "injectAlbumIcons_cell isWantedMissingPage p doc =
     (case get_node doc p of
        None \<Rightarrow> doc
      | Some cell \<Rightarrow>
          if querySelector (has_class ''blissful-album-icon'') cell \<noteq> None then doc
          else
            (case closest (is_tag ''tr'') doc p of
               None \<Rightarrow> doc
             | Some row \<Rightarrow>
                 if \<not> hasMissing isWantedMissingPage row then doc
                 else
                   (case querySelector is_album_link row of
                      None \<Rightarrow> doc
                    | Some albumLink \<Rightarrow>
                        appendChild p (album_icon (trim (textContent albumLink))) doc)))"

definition injectAlbumIcons :: "string \<Rightarrow> node \<Rightarrow> node" where
  "injectAlbumIcons path doc =
     fold (injectAlbumIcons_cell (str_includes path ''/wanted/missing''))
       (querySelectorAll (attr_contains ''class'' ''AlbumSearchCell'') doc) doc"

text \<open>The body of the \<open>forEach\<close> of \<open>injectTrackActionIcons\<close>.\<close>

definition hasWarningIcon :: "node \<Rightarrow> bool" where
  "hasWarningIcon row =
     (case querySelector (attr_contains ''class'' ''TrackRow-status'') row of
        None \<Rightarrow> False
      | Some statusCell \<Rightarrow>
          querySelector (attr_equals ''data-icon'' ''triangle-exclamation'') statusCell \<noteq> None)"

definition injectTrackActionIcons_cell :: "path \<Rightarrow> node \<Rightarrow> node" where
  "injectTrackActionIcons_cell p doc =
     (case get_node doc p of
        None \<Rightarrow> doc
      | Some cell \<Rightarrow>
          if querySelector (has_class ''blissful-track-action-icon'') cell \<noteq> None then doc
          else
            (case closest (is_tag ''tr'') doc p of
               None \<Rightarrow> doc
             | Some row \<Rightarrow>
                 if \<not> hasWarningIcon row then doc
                 else
                   (case querySelector (attr_contains ''class'' ''TrackRow-title'') row of
                      None \<Rightarrow> doc
                    | Some titleCell \<Rightarrow>
                        if trim (textContent titleCell) = [] then doc
                        else appendChild p track_icon doc)))"

text \<open>
  \<open>injectTrackActionIcons\<close> after \<open>await extractAlbumInfo()\<close>: nothing without album
  info, else the loop over the track action cells.
\<close>

definition injectTrackActionIcons_resume :: "album_info option \<Rightarrow> node \<Rightarrow> node" where
  "injectTrackActionIcons_resume albumInfo doc =
     (case albumInfo of
        None \<Rightarrow> doc
      | Some info \<Rightarrow>
          fold injectTrackActionIcons_cell
            (querySelectorAll (attr_contains ''class'' ''TrackActionsCell'') doc) doc)"

definition injectTrackActionIcons ::
  "(request \<Rightarrow> jstring + json) \<Rightarrow> agent_state \<times> node \<Rightarrow> agent_state \<times> node" where
  "injectTrackActionIcons net sd =
     (case extractAlbumInfo False net (fst sd) of
        (albumInfo, s') \<Rightarrow> (s', injectTrackActionIcons_resume albumInfo (snd sd)))"

text \<open>\<open>injectIcons\<close> of \<open>init\<close>: one scan, chosen by the path of the page.\<close>

definition injectIcons ::
  "(request \<Rightarrow> jstring + json) \<Rightarrow> agent_state \<times> node \<Rightarrow> agent_state \<times> node" where
  "injectIcons net sd =
     (if str_includes (pathname (fst sd)) ''/wanted/missing'' \<or>
         str_includes (pathname (fst sd)) ''/artist/''
      then (fst sd, injectAlbumIcons (pathname (fst sd)) (snd sd))
      else if str_includes (pathname (fst sd)) ''/album/''
      then injectTrackActionIcons net sd
      else sd)"

section \<open>The row update after a download\<close>

text \<open>
  The DOM part of \<open>updateTrackRowStatus(row, statusCell)\<close>, on the row; \<open>sp\<close> is the
  path of \<open>statusCell\<close> inside the row. The first warning icon inside the status cell is
  removed, a check icon is appended to the status cell, the row's opacity is set.
\<close>

definition check_icon :: node where
  "check_icon =
     Element ''span'' [(''class'', ascii ''Icon-icon-GFbI_''), (''data-icon'', ascii ''check'')]
       [(''color'', ''#10b981'')] [Text check_mark]"

definition remove_warning_icon :: "node \<Rightarrow> node" where
  "remove_warning_icon statusCell =
     (case querySelector_path (attr_equals ''data-icon'' ''triangle-exclamation'') statusCell of
        None \<Rightarrow> statusCell
      | Some wp \<Rightarrow> remove_node wp statusCell)"

definition updateTrackRowStatus_dom :: "path \<Rightarrow> node \<Rightarrow> node" where
  "updateTrackRowStatus_dom sp row =
     set_style ''opacity'' ''0.7''
       (modify (\<lambda>statusCell. append_child check_icon (remove_warning_icon statusCell)) sp row)"

text \<open>
  The host page with everything the script marks as its own taken out: the elements
  carrying one of the two marker classes, with their subtrees.
\<close>

definition is_marked :: "node \<Rightarrow> bool" where
  "is_marked n = (has_class ''blissful-album-icon'' n \<or> has_class ''blissful-track-action-icon'' n)"

fun strip_marked :: "node \<Rightarrow> node" where
  "strip_marked (Text s) = Text s"
| "strip_marked (Element t a st cs) =
     Element t a st (map strip_marked (filter (\<lambda>c. \<not> is_marked c) cs))"

section \<open>Notifications, requests and timers\<close>

datatype timer_action = NavigateTo jstring | RemoveControl

datatype effect =
    ShowNotification jstring string
  | ApiCall request
  | SetTimeout nat timer_action

record config =
  microserviceUrl :: string
  autoRetry :: bool
  showNotifications :: bool

text \<open>
  \<open>showNotification(message, type)\<close> shows nothing when the user has turned notifications
  off; otherwise a box with the message and the colour of the type (\<open>info\<close>'s for an
  unknown type). \<open>displayed\<close> lists the boxes a run shows, as message and colour.
\<close>

definition notification_colour :: "string \<Rightarrow> string" where
  "notification_colour type =
     (if type = ''success'' then ''#10b981''
      else if type = ''error'' then ''#ef4444''
      else if type = ''warning'' then ''#f59e0b''
      else ''#6366f1'')"

fun displayed :: "config \<Rightarrow> effect list \<Rightarrow> (jstring \<times> string) list" where
  "displayed cfg [] = []"
| "displayed cfg (ShowNotification message type # es) =
     (if showNotifications cfg then (message, notification_colour type) # displayed cfg es
      else displayed cfg es)"
| "displayed cfg (e # es) = displayed cfg es"

fun is_api_call :: "effect \<Rightarrow> bool" where
  "is_api_call (ApiCall rq) = True"
| "is_api_call e = False"

fun notification_type :: "effect \<Rightarrow> string option" where
  "notification_type (ShowNotification message type) = Some type"
| "notification_type e = None"

section \<open>Values in template literals, and \<open>parseInt\<close>\<close>

fun show_nat :: "nat \<Rightarrow> jstring" where
  "show_nat n =
     (if n < 10 then [of_char CHR ''0'' + int n]
      else show_nat (n div 10) @ [of_char CHR ''0'' + int (n mod 10)])"

declare show_nat.simps [simp del]

definition show_int :: "int \<Rightarrow> jstring" where
  "show_int i = (if i < 0 then ascii ''-'' @ show_nat (nat (- i)) else show_nat (nat i))"

text \<open>\<open>`${v}`\<close>; an array is joined with commas, \<open>null\<close> and \<open>undefined\<close> elements empty.\<close>

fun js_to_string :: "json \<Rightarrow> jstring"
  and js_join :: "json list \<Rightarrow> jstring" where
  "js_to_string JUndefined = ascii ''undefined''"
| "js_to_string JNull = ascii ''null''"
| "js_to_string (JBool b) = (if b then ascii ''true'' else ascii ''false'')"
| "js_to_string (JNum n) = show_int n"
| "js_to_string (JStr s) = s"
| "js_to_string (JArr xs) = js_join xs"
| "js_to_string (JObj kvs) = ascii ''[object Object]''"
| "js_join [] = []"
| "js_join (x # xs) =
     (if x = JNull \<or> x = JUndefined then [] else js_to_string x) @
     (if xs = [] then [] else ascii '','' @ js_join xs)"

text \<open>
  \<open>parseInt(s)\<close> without radix: leading whitespace is skipped, then a sign, then \<open>0x\<close> or
  \<open>0X\<close> selects base 16, then the longest run of digits of the base is read; \<open>None\<close> is
  \<open>NaN\<close>.
\<close>

definition digit_value :: "int \<Rightarrow> nat option" where
  "digit_value c = map_of (zip (ascii ''0123456789abcdefABCDEF'')
      [0, 1, 2, 3, 4, 5, 6, 7, 8, 9, 10, 11, 12, 13, 14, 15, 10, 11, 12, 13, 14, 15]) c"

definition is_radix_digit :: "nat \<Rightarrow> int \<Rightarrow> bool" where
  "is_radix_digit r c = (case digit_value c of None \<Rightarrow> False | Some v \<Rightarrow> v < r)"

definition read_digits :: "nat \<Rightarrow> jstring \<Rightarrow> int option" where
  "read_digits r s =
     (if takeWhile (is_radix_digit r) s = [] then None
      else Some (foldl (\<lambda>acc c. acc * int r + int (the (digit_value c))) 0
                   (takeWhile (is_radix_digit r) s)))"

definition read_unsigned :: "jstring \<Rightarrow> int option" where
  "read_unsigned s =
     (if prefix (ascii ''0x'') s \<or> prefix (ascii ''0X'') s then read_digits 16 (drop 2 s)
      else read_digits 10 s)"

definition parseInt :: "jstring \<Rightarrow> int option" where
  "parseInt s =
     (case skip_ws s of
        [] \<Rightarrow> None
      | c # cs \<Rightarrow>
          if c = of_char CHR ''-'' then map_option uminus (read_unsigned cs)
          else if c = of_char CHR ''+'' then read_unsigned cs
          else read_unsigned (c # cs))"

text \<open>\<open>parseInt(trackNum) || 1\<close>\<close>

definition track_number :: "jstring \<Rightarrow> json" where
  "track_number trackNum =
     (case parseInt trackNum of
        None \<Rightarrow> JNum 1
      | Some n \<Rightarrow> if n \<noteq> 0 then JNum n else JNum 1)"

section \<open>Download requests\<close>

text \<open>A parameter with a default value takes it when the argument is \<open>undefined\<close>.\<close>

definition default_arg :: "json \<Rightarrow> json \<Rightarrow> json" where
  "default_arg v d = (if v = JUndefined then d else v)"

definition failure_result :: "jstring \<Rightarrow> json" where
  "failure_result message = JObj [(''success'', JBool False), (''error'', JStr message)]"

definition api_missing_message :: jstring where
  "api_missing_message =
     ascii ''Tampermonkey API not available. Please reinstall the userscript.''"

text \<open>
  \<open>downloadTrack(artist, title, album = '', albumId = null, trackNumber = 1)\<close>. The first
  argument of the model says whether the userscript manager's request function exists.
  The part before \<open>await apiRequest(...)\<close> gives the notifications shown so far and either
  the value returned or the request awaited; the part after it gives the notifications
  and the value returned, the \<open>catch\<close> included.
\<close>

definition downloadTrack_request :: "json \<Rightarrow> json \<Rightarrow> json \<Rightarrow> json \<Rightarrow> json \<Rightarrow> request" where
  "downloadTrack_request artist' title' album albumId trackNumber =
     Request ''/api/download-track''
       (Some (JObj
          ([(''artist'', artist'), (''title'', title'), (''album'', default_arg album (JStr []))] @
           (if js_truthy (default_arg albumId JNull)
            then [(''album_id'', default_arg albumId JNull)] else []) @
           (if js_truthy (default_arg trackNumber (JNum 1))
            then [(''track_number'', default_arg trackNumber (JNum 1))] else []))))"

definition downloadTrack_begin ::
  "bool \<Rightarrow> json \<Rightarrow> json \<Rightarrow> json \<Rightarrow> json \<Rightarrow> json \<Rightarrow> effect list \<times> json phase" where
  "downloadTrack_begin api artist' title' album albumId trackNumber =
     (if \<not> api
      then ([ShowNotification api_missing_message ''error''],
            Return (failure_result api_missing_message))
      else ([], Await (downloadTrack_request artist' title' album albumId trackNumber)))"

definition caught :: "jstring \<Rightarrow> effect list \<times> json" where
  "caught message =
     ([ShowNotification (ascii ''Error: '' @ message) ''error''], failure_result message)"

definition downloadTrack_resume :: "json \<Rightarrow> jstring + json \<Rightarrow> effect list \<times> json" where
  "downloadTrack_resume title' settled =
     (case settled of
        Inl message \<Rightarrow> caught message
      | Inr result \<Rightarrow>
          (case get_prop result ''success'' of
             Inl message \<Rightarrow> caught message
           | Inr success \<Rightarrow>
               if js_truthy success
               then ([ShowNotification (check_mark @ ascii '' Downloaded: '' @ js_to_string title')
                        ''success''], result)
               else ([ShowNotification (ballot_x @ ascii '' Failed: '' @ js_to_string title')
                        ''error''], result)))"

text \<open>One call run from start to end; the trace lists the request between the notifications.\<close>

definition downloadTrack ::
  "bool \<Rightarrow> (request \<Rightarrow> jstring + json) \<Rightarrow> json \<Rightarrow> json \<Rightarrow> json \<Rightarrow> json \<Rightarrow> json \<Rightarrow>
     effect list \<times> json" where
  "downloadTrack api net artist' title' album albumId trackNumber =
     (case downloadTrack_begin api artist' title' album albumId trackNumber of
        (effs, Return r) \<Rightarrow> (effs, r)
      | (effs, Await rq) \<Rightarrow>
          (effs @ ApiCall rq # fst (downloadTrack_resume title' (net rq)),
           snd (downloadTrack_resume title' (net rq))))"

text \<open>
  \<open>downloadAlbum(artist, album, tracks)\<close>. \<open>tracks.map(t => ({ title: t.title }))\<close> throws
  inside the \<open>try\<close> when an element is \<open>null\<close> or \<open>undefined\<close>. The comparison
  \<open>result.failed > 0\<close> converts its operand to a number; for strings, arrays and
  objects that conversion is not modelled and is the parameter \<open>positive\<close>.
\<close>

fun track_entries :: "json list \<Rightarrow> jstring + json list" where
  "track_entries [] = Inr []"
| "track_entries (t # ts) =
     (case get_prop t ''title'' of
        Inl message \<Rightarrow> Inl message
      | Inr v \<Rightarrow>
          (case track_entries ts of
             Inl message \<Rightarrow> Inl message
           | Inr es \<Rightarrow> Inr (JObj [(''title'', v)] # es)))"

fun js_gt_zero :: "(json \<Rightarrow> bool) \<Rightarrow> json \<Rightarrow> bool" where
  "js_gt_zero positive (JNum n) = (0 < n)"
| "js_gt_zero positive (JBool b) = b"
| "js_gt_zero positive JNull = False"
| "js_gt_zero positive JUndefined = False"
| "js_gt_zero positive v = positive v"

definition starting_notification :: "json \<Rightarrow> json list \<Rightarrow> effect" where
  "starting_notification album tracks =
     ShowNotification
       (ascii ''Starting: '' @ js_to_string album @ ascii '' ('' @ show_nat (length tracks) @
        ascii '' tracks)'')
       ''info''"

definition downloadAlbum_begin :: "json \<Rightarrow> json \<Rightarrow> json list \<Rightarrow> effect list \<times> json phase" where
  "downloadAlbum_begin artist' album tracks =
     (case track_entries tracks of
        Inl message \<Rightarrow>
          (starting_notification album tracks # fst (caught message),
           Return (snd (caught message)))
      | Inr entries \<Rightarrow>
          ([starting_notification album tracks],
           Await (Request ''/api/download-album''
             (Some (JObj [(''artist'', artist'), (''album'', album), (''tracks'', JArr entries)])))))"

definition downloadAlbum_resume :: "(json \<Rightarrow> bool) \<Rightarrow> jstring + json \<Rightarrow> effect list \<times> json" where
  "downloadAlbum_resume positive settled =
     (case settled of
        Inl message \<Rightarrow> caught message
      | Inr result \<Rightarrow>
          (case get_prop result ''success'' of
             Inl message \<Rightarrow> caught message
           | Inr success \<Rightarrow>
               if js_truthy success
               then ([ShowNotification
                        (check_mark @ ascii '' Complete: '' @
                         js_to_string (lookup_prop result ''successful'') @ ascii ''/'' @
                         js_to_string (lookup_prop result ''total_tracks'') @ ascii '' tracks'')
                        (if js_gt_zero positive (lookup_prop result ''failed'')
                         then ''warning'' else ''success'')],
                     result)
               else ([ShowNotification
                        (ballot_x @ ascii '' Failed: '' @
                         js_to_string (lookup_prop result ''error''))
                        ''error''],
                     result)))"

definition downloadAlbum ::
  "(json \<Rightarrow> bool) \<Rightarrow> (request \<Rightarrow> jstring + json) \<Rightarrow> json \<Rightarrow> json \<Rightarrow> json list \<Rightarrow>
     effect list \<times> json" where
  "downloadAlbum positive net artist' album tracks =
     (case downloadAlbum_begin artist' album tracks of
        (effs, Return r) \<Rightarrow> (effs, r)
      | (effs, Await rq) \<Rightarrow>
          (effs @ ApiCall rq # fst (downloadAlbum_resume positive (net rq)),
           snd (downloadAlbum_resume positive (net rq))))"

section \<open>Controls and their click handlers\<close>

text \<open>
  An injected control: its button, whether the button is still in the page, the
  invocations of its click handler that are suspended at an \<open>await\<close> or a timer (oldest
  first), and everything its handler has shown, requested and scheduled so far.
\<close>

datatype continuation =
    DownloadPending
  | DownloadReturned json
  | RowUpdating
  | GraceTimer

record control =
  button :: node
  attached :: bool
  continuations :: "continuation list"
  trace :: "effect list"

definition new_control :: "node \<Rightarrow> control" where
  "new_control b = \<lparr>button = b, attached = True, continuations = [], trace = []\<rparr>"

text \<open>What the track-level handler captured when the control was injected.\<close>

record track_closure =
  albumInfo :: album_info
  trackTitle :: jstring
  trackNum :: jstring

text \<open>The three appearances the track-level handler gives the button.\<close>

definition pending_look :: "node \<Rightarrow> node" where
  "pending_look b = set_disabled True (set_style ''cursor'' ''wait'' (set_innerHTML hourglass b))"

definition success_look :: "node \<Rightarrow> node" where
  "success_look b = set_style ''background'' ''#10b981'' (set_innerHTML check_mark b)"

definition failure_look :: "node \<Rightarrow> node" where
  "failure_look b =
     set_disabled False
       (set_style ''cursor'' ''pointer''
         (set_style ''background'' ''#ef4444'' (set_innerHTML ballot_x b)))"

text \<open>
  The track-level click handler up to \<open>await downloadTrack(...)\<close>. \<open>downloadTrack\<close> either
  has returned by then (no API) or is itself waiting for its request.
\<close>

definition track_click :: "bool \<Rightarrow> track_closure \<Rightarrow> agent_state \<Rightarrow> control \<Rightarrow> control" where
  "track_click api cl s c =
     (case downloadTrack_begin api (artist (albumInfo cl)) (JStr (trackTitle cl))
             (title (albumInfo cl))
             (case cachedAlbumInfo s of None \<Rightarrow> JUndefined | Some i \<Rightarrow> lidarrAlbumId i)
             (track_number (trackNum cl)) of
        (effs, Return r) \<Rightarrow>
          c\<lparr>button := pending_look (button c),
            continuations := continuations c @ [DownloadReturned r],
            trace := trace c @ effs\<rparr>
      | (effs, Await rq) \<Rightarrow>
          c\<lparr>button := pending_look (button c),
            continuations := continuations c @ [DownloadPending],
            trace := trace c @ effs @ [ApiCall rq]\<rparr>)"

text \<open>
  The handler from \<open>if (result.success)\<close> on, for the oldest invocation; \<open>ks\<close> are the
  others. A \<open>result\<close> that is \<open>null\<close> would end the handler with a TypeError.
\<close>

definition track_result :: "json \<Rightarrow> continuation list \<Rightarrow> control \<Rightarrow> control" where
  "track_result result ks c =
     (case get_prop result ''success'' of
        Inl message \<Rightarrow> c\<lparr>continuations := ks\<rparr>
      | Inr success \<Rightarrow>
          if js_truthy success
          then c\<lparr>button := success_look (button c), continuations := RowUpdating # ks\<rparr>
          else c\<lparr>button := failure_look (button c), continuations := ks\<rparr>)"

text \<open>
  What can happen to a track-level control: a click (with the state of the cache at that
  moment; the browser delivers no click to a disabled button or to one that is not in the
  page), the request of \<open>downloadTrack\<close> settling, the handler resuming after a
  \<open>downloadTrack\<close> that returned without a request, \<open>updateTrackRowStatus\<close> returning,
  and the two-second timer firing.
\<close>

datatype event =
    Click agent_state
  | Settle "jstring + json"
  | Microtask
  | RowUpdated
  | TimerFired

fun track_step :: "bool \<Rightarrow> track_closure \<Rightarrow> event \<Rightarrow> control \<Rightarrow> control" where
  "track_step api cl (Click s) c =
     (if attached c \<and> \<not> is_disabled (button c) then track_click api cl s c else c)"
| "track_step api cl (Settle settled) c =
     (case continuations c of
        DownloadPending # ks \<Rightarrow>
          track_result (snd (downloadTrack_resume (JStr (trackTitle cl)) settled)) ks
            (c\<lparr>trace := trace c @ fst (downloadTrack_resume (JStr (trackTitle cl)) settled)\<rparr>)
      | _ \<Rightarrow> c)"
| "track_step api cl Microtask c =
     (case continuations c of
        DownloadReturned r # ks \<Rightarrow> track_result r ks c
      | _ \<Rightarrow> c)"
| "track_step api cl RowUpdated c =
     (case continuations c of
        RowUpdating # ks \<Rightarrow>
          c\<lparr>continuations := GraceTimer # ks,
            trace := trace c @ [SetTimeout 2000 RemoveControl]\<rparr>
      | _ \<Rightarrow> c)"
| "track_step api cl TimerFired c =
     (case continuations c of
        GraceTimer # ks \<Rightarrow> c\<lparr>attached := False, continuations := ks\<rparr>
      | _ \<Rightarrow> c)"

definition track_run :: "bool \<Rightarrow> track_closure \<Rightarrow> event list \<Rightarrow> control \<Rightarrow> control" where
  "track_run api cl es c = fold (track_step api cl) es c"

text \<open>
  The album-level click handler: a notification, and a timer of 1500 ms that sets
  \<open>window.location.href\<close> to the album's URL.
\<close>

definition coming_soon :: jstring where
  "coming_soon =
     ascii ''Album download coming soon! For now, visit the album page to download individual tracks.''"

definition album_click :: "jstring \<Rightarrow> control \<Rightarrow> control" where
  "album_click albumUrl c =
     c\<lparr>trace := trace c @
          [ShowNotification coming_soon ''info'', SetTimeout 1500 (NavigateTo albumUrl)]\<rparr>"

fun album_step :: "jstring \<Rightarrow> event \<Rightarrow> control \<Rightarrow> control" where
  "album_step albumUrl (Click s) c =
     (if attached c \<and> \<not> is_disabled (button c) then album_click albumUrl c else c)"
| "album_step albumUrl e c = c"

text \<open>
  The state of a control in the terms of the specification, read off the button: the
  handlers write one glyph per state, the injectors write the first.
\<close>

datatype control_state = Idle | Pending | Success | Failure

definition control_state :: "control \<Rightarrow> control_state option" where
  "control_state c =
     (if children (button c) = [Text musical_note] then Some Idle
      else if children (button c) = [Text hourglass] then Some Pending
      else if children (button c) = [Text check_mark] then Some Success
      else if children (button c) = [Text ballot_x] then Some Failure
      else None)"



section \<open>Concrete payloads and environments used in the evaluations\<close>

text \<open>
  A row of the artist page: an album link, a status label, and the cell with the search
  buttons; and a page made of rows.
\<close>

definition album_row :: "string \<Rightarrow> node" where
  "album_row status =
     Element ''tr'' [] []
       [Element ''td'' [] []
          [Element ''a'' [(''href'', ascii ''/album/aaa'')] [] [Text (ascii ''Album A'')]],
        Element ''td'' [] []
          [Element ''span'' [(''class'', ascii ''Label-label-DYldh'')] [] [Text (ascii status)]],
        Element ''td'' [(''class'', ascii ''AlbumSearchCell-albumSearchCell-mAYyk'')] [] []]"

definition page :: "node list \<Rightarrow> node" where
  "page rows = Element ''table'' [] [] rows"

text \<open>The batch response of scenario E of the specification, and one with the success flag.\<close>

definition counts_response :: json where
  "counts_response = JObj [(''successful'', JNum 3), (''failed'', JNum 2), (''total'', JNum 5)]"

definition batch_response :: "int \<Rightarrow> int \<Rightarrow> json" where
  "batch_response ok bad =
     JObj [(''success'', JBool True), (''total_tracks'', JNum (ok + bad)),
           (''successful'', JNum ok), (''failed'', JNum bad)]"

text \<open>No string, array or object counts as a positive number.\<close>

definition never_positive :: "json \<Rightarrow> bool" where
  "never_positive v = False"

definition album_a_response :: json where
  "album_a_response =
     JObj [(''success'', JBool True), (''title'', JStr (ascii ''Album A'')), (''artist'', JStr (ascii ''Artist A'')),
           (''foreignAlbumId'', JStr (ascii ''aaa'')), (''lidarrAlbumId'', JNum 1)]"

definition album_b_response :: json where
  "album_b_response =
     JObj [(''success'', JBool True), (''title'', JStr (ascii ''Album B'')), (''artist'', JStr (ascii ''Artist B'')),
           (''foreignAlbumId'', JStr (ascii ''bbb'')), (''lidarrAlbumId'', JNum 2)]"

text \<open>The environment in which every request settles the same way.\<close>

definition always :: "jstring + json \<Rightarrow> request \<Rightarrow> jstring + json" where
  "always settled rq = settled"

definition five_tracks :: "json list" where
  "five_tracks =
     [JObj [(''title'', JStr (ascii ''Enter Sandman'')), (''trackNumber'', JNum 1)],
      JObj [(''title'', JStr (ascii ''Sad But True''))],
      JObj [(''title'', JStr (ascii ''Holier Than Thou''))],
      JObj [(''title'', JStr (ascii ''The Unforgiven''))],
      JObj [(''title'', JStr (ascii ''Wherever I May Roam''))]]"

text \<open>
  The failure response of scenario D, a track-level closure, and a run of events: a click
  whose download fails, a retry with a second click while the retry is pending, and the
  retry succeeding.
\<close>

definition not_found_response :: json where
  "not_found_response = JObj [(''success'', JBool False), (''error'', JStr (ascii ''not found''))]"

definition closure_a :: track_closure where
  "closure_a =
     \<lparr>albumInfo = album_info_of album_a_response, trackTitle = ascii ''Enter Sandman'',
      trackNum = ascii ''1''\<rparr>"


text \<open>
  A row of the track list of an album page: number, title, status cell (here with the
  given icons) and the cell of the actions.
\<close>

definition status_cell :: "node list \<Rightarrow> node" where
  "status_cell icons = Element ''td'' [(''class'', ascii ''TrackRow-status-c3'')] [] icons"

definition warning_icon :: node where
  "warning_icon = Element ''span'' [(''data-icon'', ascii ''triangle-exclamation'')] [] []"

definition track_cells :: "node list \<Rightarrow> node list" where
  "track_cells icons =
     [Element ''td'' [(''class'', ascii ''TrackRow-trackNumber-a1'')] [] [Text (ascii ''1'')],
      Element ''td'' [(''class'', ascii ''TrackRow-title-b2'')] [] [Text (ascii ''Enter Sandman'')],
      status_cell icons,
      Element ''td'' [(''class'', ascii ''TrackActionsCell-d4'')] [] []]"

definition track_row :: node where
  "track_row =
     Element ''tr'' [(''class'', ascii ''TrackRow-row-x1'')] [] (track_cells [warning_icon])"

section \<open>The invariant of a track-level control\<close>


section \<open>Pages that differ by injected controls\<close>

text \<open>
  The buttons the injectors create, and the relation between a page and the same page
  with such buttons appended to the children of some of its elements: \<open>grown n n'\<close>
  holds when \<open>n'\<close> is \<open>n\<close> with injected buttons added at the end of child lists, at
  any depth.
\<close>

definition is_icon :: "node \<Rightarrow> bool" where
  "is_icon b = (b = track_icon \<or> (\<exists>t. b = album_icon t))"

inductive grown :: "node \<Rightarrow> node \<Rightarrow> bool" where
  grown_Text: "grown (Text s) (Text s)"
| grown_Element:
    "list_all2 grown cs cs' \<Longrightarrow> list_all is_icon bs \<Longrightarrow>
     grown (Element t a st cs) (Element t a st (cs' @ bs))"

text \<open>
  The selectors of the script read the tag and the attributes of an element only
  (\<open>sel\<close>); those for the cells and rows of the host page match no injected button
  (\<open>blind\<close>).
\<close>

definition sel :: "(node \<Rightarrow> bool) \<Rightarrow> bool" where
  "sel P = ((\<forall>t a st cs st' cs'. P (Element t a st cs) = P (Element t a st' cs')) \<and>
            (\<forall>s. \<not> P (Text s)))"

definition blind :: "(node \<Rightarrow> bool) \<Rightarrow> bool" where
  "blind P = (sel P \<and> (\<forall>b. is_icon b \<longrightarrow> \<not> P b))"

text \<open>A text with musical notes (the label of the buttons) inserted.\<close>

inductive noted :: "jstring \<Rightarrow> jstring \<Rightarrow> bool" where
  noted_Nil: "noted [] []"
| noted_Cons: "noted s s' \<Longrightarrow> noted (c # s) (c # s')"
| noted_note: "noted s s' \<Longrightarrow> noted s (musical_note @ s')"

text \<open>
  \<open>closest\<close> and the condition of the two loop bodies, spelled out: the path of the
  nearest matching ancestor; whether the body of the \<open>forEach\<close> reaches \<open>appendChild\<close>
  for the cell at a path (all its early returns passed), and which button
  \<open>injectAlbumIcons\<close> then appends (where the body appends nothing the value of
  \<open>album_button\<close> is not used).
\<close>

fun closest_path :: "(node \<Rightarrow> bool) \<Rightarrow> node \<Rightarrow> path \<Rightarrow> path option" where
  "closest_path P n [] = (if P n then Some [] else None)"
| "closest_path P (Element t a st cs) (i # p) =
     (if i < length cs
      then (case closest_path P (cs ! i) p of
              Some r \<Rightarrow> Some (i # r)
            | None \<Rightarrow> if P (Element t a st cs) then Some [] else None)
      else None)"
| "closest_path P (Text s) (i # p) = None"

definition album_wants :: "bool \<Rightarrow> path \<Rightarrow> node \<Rightarrow> bool" where
  "album_wants w q d =
     (case get_node d q of
        None \<Rightarrow> False
      | Some cell \<Rightarrow>
          querySelector (has_class ''blissful-album-icon'') cell = None \<and>
          (case closest (is_tag ''tr'') d q of
             None \<Rightarrow> False
           | Some row \<Rightarrow> hasMissing w row \<and> querySelector is_album_link row \<noteq> None))"

definition album_button :: "path \<Rightarrow> node \<Rightarrow> node" where
  "album_button q d =
     (case closest (is_tag ''tr'') d q of
        None \<Rightarrow> track_icon
      | Some row \<Rightarrow>
          (case querySelector is_album_link row of
             None \<Rightarrow> track_icon
           | Some albumLink \<Rightarrow> album_icon (trim (textContent albumLink))))"

definition track_wants :: "path \<Rightarrow> node \<Rightarrow> bool" where
  "track_wants q d =
     (case get_node d q of
        None \<Rightarrow> False
      | Some cell \<Rightarrow>
          querySelector (has_class ''blissful-track-action-icon'') cell = None \<and>
          (case closest (is_tag ''tr'') d q of
             None \<Rightarrow> False
           | Some row \<Rightarrow>
               hasWarningIcon row \<and>
               (case querySelector (attr_contains ''class'' ''TrackRow-title'') row of
                  None \<Rightarrow> False
                | Some titleCell \<Rightarrow> trim (textContent titleCell) \<noteq> [])))"

text \<open>An artist page with one missing and one partly present album, and an album page.\<close>

definition artist_page :: node where
  "artist_page = page [album_row ''0 / 5'', album_row ''3 / 5'']"

definition album_page :: node where
  "album_page = page [track_row]"

text \<open>
  Two rows of a missing album on the artist page: one with two cells of the search buttons,
  one with none.
\<close>

definition wide_row :: node where
  "wide_row =
     Element ''tr'' [] []
       [Element ''td'' [] []
          [Element ''a'' [(''href'', ascii ''/album/aaa'')] [] [Text (ascii ''Album A'')]],
        Element ''td'' [] []
          [Element ''span'' [(''class'', ascii ''Label-label-DYldh'')] [] [Text (ascii ''0 / 5'')]],
        Element ''td'' [(''class'', ascii ''AlbumSearchCell-albumSearchCell-mAYyk'')] [] [],
        Element ''td'' [(''class'', ascii ''AlbumSearchCell-albumSearchCell-mAYyk'')] [] []]"

definition bare_row :: node where
  "bare_row =
     Element ''tr'' [] []
       [Element ''td'' [] []
          [Element ''a'' [(''href'', ascii ''/album/aaa'')] [] [Text (ascii ''Album A'')]],
        Element ''td'' [] []
          [Element ''span'' [(''class'', ascii ''Label-label-DYldh'')] [] [Text (ascii ''0 / 5'')]]]"

section \<open>Literals\<close>

lemma ascii_append: "ascii (a @ b) = ascii a @ ascii b"
  by (simp add: ascii_def)

section \<open>The album-info cache: proofs\<close>

lemma begin_other:
  assumes "getAlbumIdFromUrl (pathname s) = Some i" and "lastAlbumId s \<noteq> Some i"
  shows "extractAlbumInfo_begin f s =
           (Await (Request (''/api/album-info/'' @ i) None),
            s\<lparr>cachedAlbumInfo := None, lastAlbumId := Some i\<rparr>)"
  using assms by (simp add: extractAlbumInfo_begin_def)

lemma begin_forced_same:
  assumes "getAlbumIdFromUrl (pathname s) = Some i" and "lastAlbumId s = Some i"
    and "f \<or> cachedAlbumInfo s = None"
  shows "extractAlbumInfo_begin f s = (Await (Request (''/api/album-info/'' @ i) None), s)"
  using assms by (auto simp: extractAlbumInfo_begin_def)

lemma resume_returns:
  "fst (extractAlbumInfo_resume r t) = fst (extractAlbumInfo_resume r t')"
  by (simp add: extractAlbumInfo_resume_def split: sum.split)

lemma resume_failed:
  assumes "request_failed r"
  shows "extractAlbumInfo_resume r s = (None, s)"
proof (cases r)
  case (Inl m)
  then show ?thesis by (simp add: extractAlbumInfo_resume_def)
next
  case (Inr res)
  with assms show ?thesis
    by (cases "get_prop res ''success''")
       (simp_all add: extractAlbumInfo_resume_def request_failed_def)
qed

lemma getAlbumIdFromUrl_bbb: "getAlbumIdFromUrl ''/album/bbb'' = Some ''bbb''"
  by (simp add: album_id_here_def is_id_char_def)

text \<open>
  Claim C1 (stale-response rejection). The claim: a fetch started for \<open>id1\<close> that settles
  after the page has moved on to \<open>id2\<close> is not written to the cache, so that a later
  \<open>get(id2, false)\<close> never sees the metadata of \<open>id1\<close>. The code writes every
  successful response without looking at the identifier again. The run below: the agent
  is on \<open>/album/aaa\<close> and starts a fetch; the page moves to \<open>/album/bbb\<close> and the next
  scan starts a fetch for \<open>bbb\<close>, which settles first; then the response for \<open>aaa\<close>
  arrives. From then on a call on \<open>/album/bbb\<close> without forced refresh returns the
  metadata of \<open>aaa\<close> from the cache, with no request.
\<close>

theorem C1_late_response_pollutes_cache:
  "extractAlbumInfo_begin False (initial_state ''/album/aaa'') =
     (Await (Request ''/api/album-info/aaa'' None),
      \<lparr>pathname = ''/album/aaa'', cachedAlbumInfo = None, lastAlbumId = Some ''aaa''\<rparr>) \<and>
   extractAlbumInfo_begin False
      (navigate ''/album/bbb''
        \<lparr>pathname = ''/album/aaa'', cachedAlbumInfo = None, lastAlbumId = Some ''aaa''\<rparr>) =
     (Await (Request ''/api/album-info/bbb'' None),
      \<lparr>pathname = ''/album/bbb'', cachedAlbumInfo = None, lastAlbumId = Some ''bbb''\<rparr>) \<and>
   extractAlbumInfo_resume (Inr album_b_response)
      \<lparr>pathname = ''/album/bbb'', cachedAlbumInfo = None, lastAlbumId = Some ''bbb''\<rparr> =
     (Some (album_info_of album_b_response),
      \<lparr>pathname = ''/album/bbb'', cachedAlbumInfo = Some (album_info_of album_b_response),
       lastAlbumId = Some ''bbb''\<rparr>) \<and>
   extractAlbumInfo_resume (Inr album_a_response)
      \<lparr>pathname = ''/album/bbb'', cachedAlbumInfo = Some (album_info_of album_b_response),
       lastAlbumId = Some ''bbb''\<rparr> =
     (Some (album_info_of album_a_response),
      \<lparr>pathname = ''/album/bbb'', cachedAlbumInfo = Some (album_info_of album_a_response),
       lastAlbumId = Some ''bbb''\<rparr>) \<and>
   extractAlbumInfo_begin False
      \<lparr>pathname = ''/album/bbb'', cachedAlbumInfo = Some (album_info_of album_a_response),
       lastAlbumId = Some ''bbb''\<rparr> =
     (Return (Some (album_info_of album_a_response)),
      \<lparr>pathname = ''/album/bbb'', cachedAlbumInfo = Some (album_info_of album_a_response),
       lastAlbumId = Some ''bbb''\<rparr>) \<and>
   album_info_of album_a_response \<noteq> album_info_of album_b_response"
  by (simp add: extractAlbumInfo_begin_def extractAlbumInfo_resume_def initial_state_def
      navigate_def album_id_here_def is_id_char_def album_a_response_def album_b_response_def
      album_info_of_def js_or_def)

text \<open>
  Claim C3 (cache correctness). The first half holds: with an entry cached for the
  identifier of the page, a call without forced refresh returns it with no request (the
  last step of the run below is such a call). The second half does not hold of the code
  when calls overlap. The run: on \<open>/album/aaa\<close> two scans call \<open>extractAlbumInfo\<close> one
  after the other, the second while the request of the first is still out, so both
  request \<open>aaa\<close>; the first request settles and the first call returns the metadata of
  \<open>aaa\<close>, which is cached (the prior successful call). The page moves to \<open>/album/bbb\<close>;
  the next call discards the entry, records \<open>bbb\<close> and requests \<open>bbb\<close>, as the claim
  says. Then the response to the second request for \<open>aaa\<close> arrives and is cached without
  a look at the identifier. The next call on \<open>/album/bbb\<close> without forced refresh
  returns the metadata of \<open>aaa\<close> from the cache.
\<close>

theorem C3_other_album_served_from_cache:
  "extractAlbumInfo_begin False (initial_state ''/album/aaa'') =
     (Await (Request ''/api/album-info/aaa'' None),
      \<lparr>pathname = ''/album/aaa'', cachedAlbumInfo = None, lastAlbumId = Some ''aaa''\<rparr>) \<and>
   extractAlbumInfo_begin False
      \<lparr>pathname = ''/album/aaa'', cachedAlbumInfo = None, lastAlbumId = Some ''aaa''\<rparr> =
     (Await (Request ''/api/album-info/aaa'' None),
      \<lparr>pathname = ''/album/aaa'', cachedAlbumInfo = None, lastAlbumId = Some ''aaa''\<rparr>) \<and>
   extractAlbumInfo_resume (Inr album_a_response)
      \<lparr>pathname = ''/album/aaa'', cachedAlbumInfo = None, lastAlbumId = Some ''aaa''\<rparr> =
     (Some (album_info_of album_a_response),
      \<lparr>pathname = ''/album/aaa'', cachedAlbumInfo = Some (album_info_of album_a_response),
       lastAlbumId = Some ''aaa''\<rparr>) \<and>
   getAlbumIdFromUrl ''/album/bbb'' = Some ''bbb'' \<and>
   extractAlbumInfo_begin False
      (navigate ''/album/bbb''
        \<lparr>pathname = ''/album/aaa'', cachedAlbumInfo = Some (album_info_of album_a_response),
         lastAlbumId = Some ''aaa''\<rparr>) =
     (Await (Request ''/api/album-info/bbb'' None),
      \<lparr>pathname = ''/album/bbb'', cachedAlbumInfo = None, lastAlbumId = Some ''bbb''\<rparr>) \<and>
   extractAlbumInfo_resume (Inr album_a_response)
      \<lparr>pathname = ''/album/bbb'', cachedAlbumInfo = None, lastAlbumId = Some ''bbb''\<rparr> =
     (Some (album_info_of album_a_response),
      \<lparr>pathname = ''/album/bbb'', cachedAlbumInfo = Some (album_info_of album_a_response),
       lastAlbumId = Some ''bbb''\<rparr>) \<and>
   extractAlbumInfo_begin False
      \<lparr>pathname = ''/album/bbb'', cachedAlbumInfo = Some (album_info_of album_a_response),
       lastAlbumId = Some ''bbb''\<rparr> =
     (Return (Some (album_info_of album_a_response)),
      \<lparr>pathname = ''/album/bbb'', cachedAlbumInfo = Some (album_info_of album_a_response),
       lastAlbumId = Some ''bbb''\<rparr>) \<and>
   foreignAlbumId (album_info_of album_a_response) = JStr (ascii ''aaa'')"
  by (simp add: extractAlbumInfo_begin_def extractAlbumInfo_resume_def initial_state_def
      navigate_def album_id_here_def is_id_char_def album_a_response_def
      album_info_of_def js_or_def)

text \<open>
  Claim C4 (cache error atomicity). As stated, the claim fails in two ways. A failure
  does not empty the cache: with metadata cached for the identifier of the page, a
  forced refresh requests again without touching the cache, and when the request ends in
  a network error the call returns \<open>null\<close> while the cache still holds the old metadata.
  And a malformed payload is no failure when its \<open>success\<close> is truthy: the payload
  \<open>{success: true}\<close>, with none of the four fields, makes the call return a record of
  undefined fields, which is cached.
\<close>

theorem C4_cache_not_empty_counterexample:
  "extractAlbumInfo_begin True
      \<lparr>pathname = ''/album/aaa'', cachedAlbumInfo = Some (album_info_of album_a_response),
       lastAlbumId = Some ''aaa''\<rparr> =
     (Await (Request ''/api/album-info/aaa'' None),
      \<lparr>pathname = ''/album/aaa'', cachedAlbumInfo = Some (album_info_of album_a_response),
       lastAlbumId = Some ''aaa''\<rparr>) \<and>
   apiRequest True OnError = Inl (ascii ''Network error'') \<and>
   extractAlbumInfo_resume (apiRequest True OnError)
      \<lparr>pathname = ''/album/aaa'', cachedAlbumInfo = Some (album_info_of album_a_response),
       lastAlbumId = Some ''aaa''\<rparr> =
     (None,
      \<lparr>pathname = ''/album/aaa'', cachedAlbumInfo = Some (album_info_of album_a_response),
       lastAlbumId = Some ''aaa''\<rparr>) \<and>
   extractAlbumInfo_resume (apiRequest True (OnLoad (Some (JObj [(''success'', JBool True)]))))
      \<lparr>pathname = ''/album/aaa'', cachedAlbumInfo = None, lastAlbumId = Some ''aaa''\<rparr> =
     (Some \<lparr>title = JUndefined, artist = JUndefined, foreignAlbumId = JUndefined,
            lidarrAlbumId = JNull\<rparr>,
      \<lparr>pathname = ''/album/aaa'',
       cachedAlbumInfo = Some \<lparr>title = JUndefined, artist = JUndefined,
                               foreignAlbumId = JUndefined, lidarrAlbumId = JNull\<rparr>,
       lastAlbumId = Some ''aaa''\<rparr>)"
  by (simp add: extractAlbumInfo_begin_def extractAlbumInfo_resume_def album_id_here_def
      is_id_char_def album_info_of_def js_or_def)

text \<open>
  Claim C4 as amended, stated on the two parts of a call, so that it holds whatever runs
  between the request and its response. A call on a page with identifier \<open>i\<close> that makes
  a request (the refresh is forced, or nothing is cached, or the last identifier seen is
  another one) empties the cache before the request exactly when \<open>i\<close> is not the last
  identifier seen, and records \<open>i\<close>. When the request fails, the call returns \<open>null\<close>
  and writes nothing: the state is the one the response found, with whatever entry the
  cache held then. A request fails when the promise is rejected (no API, network error,
  timeout, text that is not JSON), when the payload is \<open>null\<close> or \<open>undefined\<close>, or when
  the \<open>success\<close> of the payload is falsy; every other payload, whatever else it holds
  or lacks, makes the call return the record of its four fields and cache it.
\<close>

theorem C4_failed_fetch_amended:
  "(getAlbumIdFromUrl (pathname s) = Some i \<and>
    (forceRefresh \<or> cachedAlbumInfo s = None \<or> lastAlbumId s \<noteq> Some i) \<longrightarrow>
      extractAlbumInfo_begin forceRefresh s =
        (Await (Request (''/api/album-info/'' @ i) None),
         s\<lparr>cachedAlbumInfo := (if lastAlbumId s = Some i then cachedAlbumInfo s else None),
            lastAlbumId := Some i\<rparr>)) \<and>
   (request_failed settled \<longrightarrow> extractAlbumInfo_resume settled t = (None, t)) \<and>
   (\<not> request_failed settled \<longrightarrow>
      (\<exists>result. settled = Inr result \<and>
         extractAlbumInfo_resume settled t =
           (Some (album_info_of result), t\<lparr>cachedAlbumInfo := Some (album_info_of result)\<rparr>))) \<and>
   request_failed settled =
     (\<forall>result. settled = Inr result \<longrightarrow>
        result = JNull \<or> result = JUndefined \<or> \<not> js_truthy (lookup_prop result ''success'')) \<and>
   request_failed (apiRequest False ev) \<and> request_failed (apiRequest True OnError) \<and>
   request_failed (apiRequest True OnTimeout) \<and> request_failed (apiRequest True (OnLoad None))"
proof (intro conjI impI)
  assume h: "getAlbumIdFromUrl (pathname s) = Some i \<and>
             (forceRefresh \<or> cachedAlbumInfo s = None \<or> lastAlbumId s \<noteq> Some i)"
  show "extractAlbumInfo_begin forceRefresh s =
        (Await (Request (''/api/album-info/'' @ i) None),
         s\<lparr>cachedAlbumInfo := (if lastAlbumId s = Some i then cachedAlbumInfo s else None),
            lastAlbumId := Some i\<rparr>)"
  proof (cases "lastAlbumId s = Some i")
    case True
    with h have "forceRefresh \<or> cachedAlbumInfo s = None" by simp
    with h begin_forced_same [of s i forceRefresh] True show ?thesis by simp
  next
    case False
    with h begin_other [of s i forceRefresh] show ?thesis by simp
  qed
next
  assume "request_failed settled"
  then show "extractAlbumInfo_resume settled t = (None, t)" by (rule resume_failed)
next
  assume n: "\<not> request_failed settled"
  then obtain result where r: "settled = Inr result"
    by (cases settled) (simp_all add: request_failed_def)
  with n obtain v where "get_prop result ''success'' = Inr v" and "js_truthy v"
    by (cases "get_prop result ''success''") (simp_all add: request_failed_def)
  with r show "\<exists>result. settled = Inr result \<and>
         extractAlbumInfo_resume settled t =
           (Some (album_info_of result), t\<lparr>cachedAlbumInfo := Some (album_info_of result)\<rparr>)"
    by (simp add: extractAlbumInfo_resume_def)
next
  show "request_failed settled =
     (\<forall>result. settled = Inr result \<longrightarrow>
        result = JNull \<or> result = JUndefined \<or> \<not> js_truthy (lookup_prop result ''success''))"
  proof (cases settled)
    case (Inl m)
    then show ?thesis by (simp add: request_failed_def)
  next
    case (Inr result)
    then show ?thesis by (cases result) (simp_all add: request_failed_def)
  qed
qed (simp_all add: request_failed_def)

text \<open>
  The amended claim at work. A call on \<open>/album/bbb\<close> with metadata of \<open>aaa\<close> cached
  empties the cache and requests \<open>bbb\<close>; a timeout that arrives when another call has
  cached metadata in the meantime returns \<open>null\<close> and leaves that entry; a payload whose
  \<open>success\<close> is \<open>false\<close> does the same on an empty cache.
\<close>

theorem C4_failed_fetch_amended_witness:
  "extractAlbumInfo_begin False
      \<lparr>pathname = ''/album/bbb'', cachedAlbumInfo = Some (album_info_of album_a_response),
       lastAlbumId = Some ''aaa''\<rparr> =
     (Await (Request ''/api/album-info/bbb'' None),
      \<lparr>pathname = ''/album/bbb'', cachedAlbumInfo = None, lastAlbumId = Some ''bbb''\<rparr>) \<and>
   extractAlbumInfo_resume (apiRequest True OnTimeout)
      \<lparr>pathname = ''/album/bbb'', cachedAlbumInfo = Some (album_info_of album_b_response),
       lastAlbumId = Some ''bbb''\<rparr> =
     (None,
      \<lparr>pathname = ''/album/bbb'', cachedAlbumInfo = Some (album_info_of album_b_response),
       lastAlbumId = Some ''bbb''\<rparr>) \<and>
   extractAlbumInfo_resume (Inr not_found_response)
      \<lparr>pathname = ''/album/bbb'', cachedAlbumInfo = None, lastAlbumId = Some ''bbb''\<rparr> =
     (None, \<lparr>pathname = ''/album/bbb'', cachedAlbumInfo = None, lastAlbumId = Some ''bbb''\<rparr>)"
proof -
  have f: "request_failed (Inr not_found_response)"
    by (simp add: request_failed_def not_found_response_def)
  have t: "request_failed (apiRequest True OnTimeout)"
    by (simp add: request_failed_def)
  from C4_failed_fetch_amended [where s = "\<lparr>pathname = ''/album/bbb'',
        cachedAlbumInfo = Some (album_info_of album_a_response), lastAlbumId = Some ''aaa''\<rparr>"
      and i = "''bbb''" and forceRefresh = False and settled = "apiRequest True OnTimeout"
      and t = "\<lparr>pathname = ''/album/bbb'',
        cachedAlbumInfo = Some (album_info_of album_b_response), lastAlbumId = Some ''bbb''\<rparr>"]
    getAlbumIdFromUrl_bbb t
  have a: "extractAlbumInfo_begin False
      \<lparr>pathname = ''/album/bbb'', cachedAlbumInfo = Some (album_info_of album_a_response),
       lastAlbumId = Some ''aaa''\<rparr> =
     (Await (Request ''/api/album-info/bbb'' None),
      \<lparr>pathname = ''/album/bbb'', cachedAlbumInfo = None, lastAlbumId = Some ''bbb''\<rparr>)"
    and b: "extractAlbumInfo_resume (apiRequest True OnTimeout)
      \<lparr>pathname = ''/album/bbb'', cachedAlbumInfo = Some (album_info_of album_b_response),
       lastAlbumId = Some ''bbb''\<rparr> =
     (None,
      \<lparr>pathname = ''/album/bbb'', cachedAlbumInfo = Some (album_info_of album_b_response),
       lastAlbumId = Some ''bbb''\<rparr>)"
    by simp_all
  from C4_failed_fetch_amended [where settled = "Inr not_found_response"
      and t = "\<lparr>pathname = ''/album/bbb'', cachedAlbumInfo = None, lastAlbumId = Some ''bbb''\<rparr>"] f
  have c: "extractAlbumInfo_resume (Inr not_found_response)
      \<lparr>pathname = ''/album/bbb'', cachedAlbumInfo = None, lastAlbumId = Some ''bbb''\<rparr> =
     (None, \<lparr>pathname = ''/album/bbb'', cachedAlbumInfo = None, lastAlbumId = Some ''bbb''\<rparr>)"
    by blast
  from a b c show ?thesis by (intro conjI)
qed

section \<open>Row classification on list pages: proofs\<close>

text \<open>
  Claim C5 (list-page missing classification). The claim: on an artist page a row is
  flagged missing exactly when its status label shows \<open>0 / N\<close>, zero of N units present.
  The pattern of the code has no anchor, so it also matches inside \<open>10 / 10\<close>: the row
  of a complete album is flagged missing and gets a control. (A row with \<open>0 / 5\<close> is
  flagged, one with \<open>3 / 5\<close> is not.)
\<close>

theorem C5_complete_album_flagged_missing:
  "hasMissing False (album_row ''10 / 10'') \<and>
   injectAlbumIcons ''/artist/abc'' (page [album_row ''10 / 10'']) =
     page [Element ''tr'' [] []
       [Element ''td'' [] []
          [Element ''a'' [(''href'', ascii ''/album/aaa'')] [] [Text (ascii ''Album A'')]],
        Element ''td'' [] []
          [Element ''span'' [(''class'', ascii ''Label-label-DYldh'')] []
             [Text (ascii ''10 / 10'')]],
        Element ''td'' [(''class'', ascii ''AlbumSearchCell-albumSearchCell-mAYyk'')] []
          [album_icon (ascii ''Album A'')]]] \<and>
   hasMissing False (album_row ''0 / 5'') \<and>
   \<not> hasMissing False (album_row ''3 / 5'')"
  by code_simp

section \<open>Batch downloads: proofs\<close>

text \<open>
  Claim C8 (aggregate behaviour of the batch download). As stated, the claim fails for the
  response of scenario E, which reports the counts but carries no \<open>success\<close> flag: the
  code tests \<open>result.success\<close> first and shows an error-styled notification.
\<close>

theorem C8_counts_without_success_flag_counterexample:
  "downloadAlbum never_positive (always (Inr counts_response))
      (JStr (ascii ''Metallica'')) (JStr (ascii ''Metallica'')) five_tracks =
     ([ShowNotification (ascii ''Starting: Metallica (5 tracks)'') ''info'',
       ApiCall (Request ''/api/download-album''
         (Some (JObj [(''artist'', JStr (ascii ''Metallica'')), (''album'', JStr (ascii ''Metallica'')),
            (''tracks'',
             JArr [JObj [(''title'', JStr (ascii ''Enter Sandman''))],
                   JObj [(''title'', JStr (ascii ''Sad But True''))],
                   JObj [(''title'', JStr (ascii ''Holier Than Thou''))],
                   JObj [(''title'', JStr (ascii ''The Unforgiven''))],
                   JObj [(''title'', JStr (ascii ''Wherever I May Roam''))]])]))),
       ShowNotification (ballot_x @ ascii '' Failed: undefined'') ''error''],
      counts_response)"
  by code_simp

lemma track_entries_objects:
  assumes "\<forall>t \<in> set tracks. t \<noteq> JNull \<and> t \<noteq> JUndefined"
  shows "track_entries tracks = Inr (map (\<lambda>t. JObj [(''title'', lookup_prop t ''title'')]) tracks)"
  using assms
proof (induction tracks)
  case Nil
  then show ?case by simp
next
  case (Cons t ts)
  then have "get_prop t ''title'' = Inr (lookup_prop t ''title'')"
    by (cases t) simp_all
  with Cons show ?case by simp
qed

lemma truthy_prop_get:
  assumes "js_truthy (lookup_prop result name)"
  shows "get_prop result name = Inr (lookup_prop result name)"
  using assms by (cases result) simp_all

text \<open>
  Claim C8 as amended. For a batch download whose tracks are objects and whose response
  has a truthy \<open>success\<close> flag and a numeric \<open>failed\<close> count: after the \<open>Starting\<close>
  notification shown before the request, exactly one completion notification is shown,
  warning-styled if \<open>failed > 0\<close> and success-styled otherwise; the response object is
  returned as it is; in the request body every entry of \<open>tracks\<close> holds the title of the
  track and nothing else.
\<close>

theorem C8_batch_download_amended:
  assumes "\<forall>t \<in> set tracks. t \<noteq> JNull \<and> t \<noteq> JUndefined"
    and "net (Request ''/api/download-album''
           (Some (JObj [(''artist'', artist'), (''album'', album),
              (''tracks'', JArr (map (\<lambda>t. JObj [(''title'', lookup_prop t ''title'')]) tracks))])))
         = Inr result"
    and "js_truthy (lookup_prop result ''success'')"
    and "lookup_prop result ''failed'' = JNum n"
  shows "downloadAlbum positive net artist' album tracks =
     ([starting_notification album tracks,
       ApiCall (Request ''/api/download-album''
         (Some (JObj [(''artist'', artist'), (''album'', album),
            (''tracks'', JArr (map (\<lambda>t. JObj [(''title'', lookup_prop t ''title'')]) tracks))]))),
       ShowNotification
         (check_mark @ ascii '' Complete: '' @ js_to_string (lookup_prop result ''successful'') @
          ascii ''/'' @ js_to_string (lookup_prop result ''total_tracks'') @ ascii '' tracks'')
         (if 0 < n then ''warning'' else ''success'')],
      result)"
proof -
  let ?rq = "Request ''/api/download-album''
         (Some (JObj [(''artist'', artist'), (''album'', album),
            (''tracks'', JArr (map (\<lambda>t. JObj [(''title'', lookup_prop t ''title'')]) tracks))]))"
  have b: "downloadAlbum_begin artist' album tracks = ([starting_notification album tracks], Await ?rq)"
    by (simp add: downloadAlbum_begin_def track_entries_objects [OF assms(1)])
  have r: "downloadAlbum_resume positive (Inr result) =
      ([ShowNotification
         (check_mark @ ascii '' Complete: '' @ js_to_string (lookup_prop result ''successful'') @
          ascii ''/'' @ js_to_string (lookup_prop result ''total_tracks'') @ ascii '' tracks'')
         (if 0 < n then ''warning'' else ''success'')], result)"
    by (simp add: downloadAlbum_resume_def truthy_prop_get [OF assms(3)] assms(3) assms(4))
  show ?thesis
    unfolding downloadAlbum_def b by (simp only: prod.case phase.case assms(2) r fst_conv snd_conv append.simps)
qed

theorem C8_batch_download_amended_witness:
  "JNull \<notin> set five_tracks \<and> JUndefined \<notin> set five_tracks \<and>
   js_truthy (lookup_prop (batch_response 3 2) ''success'') \<and>
   lookup_prop (batch_response 3 2) ''failed'' = JNum 2 \<and>
   downloadAlbum never_positive (always (Inr (batch_response 3 2)))
      (JStr (ascii ''Metallica'')) (JStr (ascii ''Metallica'')) five_tracks =
     ([ShowNotification (ascii ''Starting: Metallica (5 tracks)'') ''info'',
       ApiCall (Request ''/api/download-album''
         (Some (JObj [(''artist'', JStr (ascii ''Metallica'')), (''album'', JStr (ascii ''Metallica'')),
            (''tracks'',
             JArr [JObj [(''title'', JStr (ascii ''Enter Sandman''))],
                   JObj [(''title'', JStr (ascii ''Sad But True''))],
                   JObj [(''title'', JStr (ascii ''Holier Than Thou''))],
                   JObj [(''title'', JStr (ascii ''The Unforgiven''))],
                   JObj [(''title'', JStr (ascii ''Wherever I May Roam''))]])]))),
       ShowNotification (check_mark @ ascii '' Complete: 3/5 tracks'') ''warning''],
      batch_response 3 2)"
proof -
  have h1: "\<forall>t \<in> set five_tracks. t \<noteq> JNull \<and> t \<noteq> JUndefined"
    by (simp add: five_tracks_def)
  have h2: "js_truthy (lookup_prop (batch_response 3 2) ''success'')"
    by (simp add: batch_response_def)
  have h3: "lookup_prop (batch_response 3 2) ''failed'' = JNum 2"
    by (simp add: batch_response_def)
  have h4: "always (Inr (batch_response 3 2)) rq = Inr (batch_response 3 2)" for rq
    by (simp add: always_def)
  have s1: "starting_notification (JStr (ascii ''Metallica'')) five_tracks =
              ShowNotification (ascii ''Starting: Metallica (5 tracks)'') ''info''"
    by code_simp
  have s2: "js_to_string (lookup_prop (batch_response 3 2) ''successful'') = ascii ''3''"
    by code_simp
  have s3: "js_to_string (lookup_prop (batch_response 3 2) ''total_tracks'') = ascii ''5''"
    by code_simp
  have s4: "map (\<lambda>t. JObj [(''title'', lookup_prop t ''title'')]) five_tracks =
              [JObj [(''title'', JStr (ascii ''Enter Sandman''))],
               JObj [(''title'', JStr (ascii ''Sad But True''))],
               JObj [(''title'', JStr (ascii ''Holier Than Thou''))],
               JObj [(''title'', JStr (ascii ''The Unforgiven''))],
               JObj [(''title'', JStr (ascii ''Wherever I May Roam''))]]"
    by (simp add: five_tracks_def)
  show ?thesis
    using C8_batch_download_amended [where tracks = five_tracks
        and net = "always (Inr (batch_response 3 2))" and result = "batch_response 3 2"
        and n = 2 and positive = never_positive and artist' = "JStr (ascii ''Metallica'')"
        and album = "JStr (ascii ''Metallica'')", OF h1 h4 h2 h3] h1 h2 h3 s1 s2 s3 s4
    by (auto simp: ascii_def)
qed

section \<open>Controls: proofs\<close>

lemma map_of_assoc_set: "map_of (assoc_set k v kvs) k = Some v"
  by (induction kvs) auto

lemma map_of_assoc_set_other: "k' \<noteq> k \<Longrightarrow> map_of (assoc_set k v kvs) k' = map_of kvs k'"
  by (induction kvs) auto

lemma map_of_filter_key: "map_of (filter (\<lambda>kv. fst kv \<noteq> k) kvs) k = None"
  by (induction kvs) auto

lemma glyphs_distinct:
  "musical_note \<noteq> hourglass" "musical_note \<noteq> check_mark" "musical_note \<noteq> ballot_x"
  "hourglass \<noteq> check_mark" "hourglass \<noteq> ballot_x" "check_mark \<noteq> ballot_x"
  "hourglass \<noteq> musical_note" "check_mark \<noteq> musical_note" "ballot_x \<noteq> musical_note"
  "check_mark \<noteq> hourglass" "ballot_x \<noteq> hourglass" "ballot_x \<noteq> check_mark"
  by (simp_all add: musical_note_def hourglass_def check_mark_def ballot_x_def)

lemma pending_look_Element:
  "pending_look (Element t a st cs) =
     Element t (assoc_set ''disabled'' [] a) (assoc_set ''cursor'' ''wait'' st) [Text hourglass]"
  by (simp add: pending_look_def)

lemma success_look_Element:
  "success_look (Element t a st cs) =
     Element t a (assoc_set ''background'' ''#10b981'' st) [Text check_mark]"
  by (simp add: success_look_def)

lemma failure_look_Element:
  "failure_look (Element t a st cs) =
     Element t (filter (\<lambda>kv. fst kv \<noteq> ''disabled'') a)
       (assoc_set ''cursor'' ''pointer'' (assoc_set ''background'' ''#ef4444'' st)) [Text ballot_x]"
  by (simp add: failure_look_def)

lemma resume_result_prop:
  "get_prop (snd (downloadTrack_resume t settled)) ''success'' =
     Inr (lookup_prop (snd (downloadTrack_resume t settled)) ''success'')"
proof (cases settled)
  case (Inl m)
  then show ?thesis by (simp add: downloadTrack_resume_def caught_def failure_result_def)
next
  case (Inr result)
  show ?thesis
  proof (cases "get_prop result ''success''")
    case (Inl m)
    with Inr show ?thesis by (simp add: downloadTrack_resume_def caught_def failure_result_def)
  next
    case r: (Inr v)
    then have "get_prop result ''success'' = Inr (lookup_prop result ''success'')"
      by (cases result) simp_all
    with Inr r show ?thesis by (simp add: downloadTrack_resume_def)
  qed
qed

lemma resume_failed_result:
  assumes "request_failed settled"
  shows "downloadTrack_resume t settled =
           (case settled of
              Inl m \<Rightarrow> caught m
            | Inr result \<Rightarrow>
                (case get_prop result ''success'' of
                   Inl m \<Rightarrow> caught m
                 | Inr v \<Rightarrow> ([ShowNotification (ballot_x @ ascii '' Failed: '' @ js_to_string t) ''error''], result)))"
proof (cases settled)
  case (Inl m)
  then show ?thesis by (simp add: downloadTrack_resume_def)
next
  case (Inr result)
  with assms show ?thesis
    by (cases "get_prop result ''success''") (simp_all add: downloadTrack_resume_def request_failed_def)
qed

lemma resume_failed_falsy:
  assumes "request_failed settled"
  shows "\<not> js_truthy (lookup_prop (snd (downloadTrack_resume t settled)) ''success'')"
    and "map notification_type (fst (downloadTrack_resume t settled)) = [Some ''error'']"
proof -
  show "\<not> js_truthy (lookup_prop (snd (downloadTrack_resume t settled)) ''success'')"
  proof (cases settled)
    case (Inl m)
    then show ?thesis by (simp add: downloadTrack_resume_def caught_def failure_result_def)
  next
    case (Inr result)
    show ?thesis
    proof (cases "get_prop result ''success''")
      case (Inl m)
      with Inr show ?thesis by (simp add: downloadTrack_resume_def caught_def failure_result_def)
    next
      case r: (Inr v)
      then have "v = lookup_prop result ''success''" by (cases result) auto
      with assms Inr r show ?thesis by (simp add: downloadTrack_resume_def request_failed_def)
    qed
  qed
  show "map notification_type (fst (downloadTrack_resume t settled)) = [Some ''error'']"
    unfolding resume_failed_result [OF assms]
    by (simp add: caught_def split: sum.split)
qed


lemma click_state:
  assumes "button c = Element t a st cs" "continuations c = []"
  shows "control_state (track_click api cl s c) = Some Pending"
    and "is_disabled (button (track_click api cl s c))"
    and "attached (track_click api cl s c) = attached c"
    and "continuations (track_click api cl s c) =
           (if api then [DownloadPending] else [DownloadReturned (failure_result api_missing_message)])"
    and "\<exists>t a st cs. button (track_click api cl s c) = Element t a st cs"
  using assms
  by (simp_all add: track_click_def downloadTrack_begin_def control_state_def
      pending_look_Element glyphs_distinct is_disabled_def map_of_assoc_set)

lemma result_state:
  assumes "button c = Element t a st cs" "is_disabled (button c)"
    and "get_prop r ''success'' = Inr v"
  shows "control_state (track_result r ks c) = Some (if js_truthy v then Success else Failure)"
    and "is_disabled (button (track_result r ks c)) = js_truthy v"
    and "attached (track_result r ks c) = attached c"
    and "continuations (track_result r ks c) = (if js_truthy v then RowUpdating # ks else ks)"
    and "\<exists>t a st cs. button (track_result r ks c) = Element t a st cs"
    and "trace (track_result r ks c) = trace c"
  using assms
  by (simp_all add: track_result_def control_state_def success_look_Element failure_look_Element
      glyphs_distinct is_disabled_def map_of_filter_key)








lemma click_trace:
  "trace (track_click api cl s c) =
     trace c @
       (if api
        then [ApiCall (downloadTrack_request (artist (albumInfo cl)) (JStr (trackTitle cl))
                (title (albumInfo cl))
                (case cachedAlbumInfo s of None \<Rightarrow> JUndefined | Some i \<Rightarrow> lidarrAlbumId i)
                (track_number (trackNum cl)))]
        else [ShowNotification api_missing_message ''error''])"
  by (simp add: track_click_def downloadTrack_begin_def)

lemma failure_cursor:
  assumes "button c = Element t a st cs" "get_prop r ''success'' = Inr v" "\<not> js_truthy v"
  shows "map_of (styles (button (track_result r ks c))) ''cursor'' = Some ''pointer''"
  using assms by (simp add: track_result_def failure_look_Element map_of_assoc_set)

lemma downloadTrack_failed:
  assumes "\<not> api \<or> request_failed (net (downloadTrack_request a t al aid tn))"
  shows "snd (downloadTrack api net a t al aid tn) =
           (if \<not> api then failure_result api_missing_message
            else case net (downloadTrack_request a t al aid tn) of
                   Inl m \<Rightarrow> failure_result m
                 | Inr result \<Rightarrow>
                     (case get_prop result ''success'' of
                        Inl m \<Rightarrow> failure_result m
                      | Inr v \<Rightarrow> result))"
    and "\<not> js_truthy (lookup_prop (snd (downloadTrack api net a t al aid tn)) ''success'')"
    and "map notification_type (fst (downloadTrack api net a t al aid tn)) =
           (if api then [None, Some ''error''] else [Some ''error''])"
proof -
  let ?rq = "downloadTrack_request a t al aid tn"
  show "snd (downloadTrack api net a t al aid tn) =
           (if \<not> api then failure_result api_missing_message
            else case net ?rq of
                   Inl m \<Rightarrow> failure_result m
                 | Inr result \<Rightarrow>
                     (case get_prop result ''success'' of
                        Inl m \<Rightarrow> failure_result m
                      | Inr v \<Rightarrow> result))"
  proof (cases api)
    case False
    then show ?thesis by (simp add: downloadTrack_def downloadTrack_begin_def)
  next
    case True
    with assms have f: "request_failed (net ?rq)" by simp
    from True show ?thesis
      by (simp add: downloadTrack_def downloadTrack_begin_def resume_failed_result [OF f] caught_def
          split: sum.split)
  qed
  show "\<not> js_truthy (lookup_prop (snd (downloadTrack api net a t al aid tn)) ''success'')"
  proof (cases api)
    case False
    then show ?thesis by (simp add: downloadTrack_def downloadTrack_begin_def failure_result_def)
  next
    case True
    with assms have f: "request_failed (net ?rq)" by simp
    from True resume_failed_falsy(1) [OF f, of t] show ?thesis
      by (simp add: downloadTrack_def downloadTrack_begin_def)
  qed
  show "map notification_type (fst (downloadTrack api net a t al aid tn)) =
           (if api then [None, Some ''error''] else [Some ''error''])"
  proof (cases api)
    case False
    then show ?thesis by (simp add: downloadTrack_def downloadTrack_begin_def)
  next
    case True
    with assms have f: "request_failed (net ?rq)" by simp
    from True resume_failed_falsy(2) [OF f, of t] show ?thesis
      by (simp add: downloadTrack_def downloadTrack_begin_def)
  qed
qed

lemma failed_click_control:
  assumes ctl: "button c = Element tg at st cs" "attached c" "\<not> is_disabled (button c)"
      "continuations c = []"
    and ev: "\<not> api \<or> request_failed settled"
    and c': "c' = track_run api cl [Click s, if api then Settle settled else Microtask] c"
  shows "control_state c' = Some Failure \<and> \<not> is_disabled (button c') \<and>
        map_of (styles (button c')) ''cursor'' = Some ''pointer'' \<and> attached c' \<and>
        continuations c' = [] \<and>
        map notification_type (trace c') =
           map notification_type (trace c) @ (if api then [None, Some ''error''] else [Some ''error''])"
proof -
  let ?c1 = "track_click api cl s c"
  from click_state [OF ctl(1) ctl(4), of api cl s] obtain t1 a1 st1 cs1 where
    b1: "button ?c1 = Element t1 a1 st1 cs1" and d1: "is_disabled (button ?c1)"
    and at1: "attached ?c1" and k1: "continuations ?c1 =
      (if api then [DownloadPending] else [DownloadReturned (failure_result api_missing_message)])"
    using ctl(2) by auto
  have step1: "track_step api cl (Click s) c = ?c1" using ctl by simp
  show ?thesis
  proof (cases api)
    case True
    with ev have f: "request_failed settled" by simp
    let ?t = "JStr (trackTitle cl)"
    let ?c2 = "?c1\<lparr>trace := trace ?c1 @ fst (downloadTrack_resume ?t settled)\<rparr>"
    let ?r = "snd (downloadTrack_resume ?t settled)"
    have "c' = track_step api cl (Settle settled) (track_step api cl (Click s) c)"
      using True by (simp add: c' track_run_def del: track_step.simps)
    then have "c' = track_step api cl (Settle settled) ?c1"
      by (simp only: step1)
    then have c'eq: "c' = track_result ?r [] ?c2"
      using True k1 by simp
    have b2: "button ?c2 = Element t1 a1 st1 cs1" and d2: "is_disabled (button ?c2)"
      using b1 d1 by simp_all
    have g: "get_prop ?r ''success'' = Inr (lookup_prop ?r ''success'')"
      by (rule resume_result_prop)
    have nf: "\<not> js_truthy (lookup_prop ?r ''success'')"
      by (rule resume_failed_falsy(1) [OF f])
    from result_state [OF b2 d2 g, of "[]"] failure_cursor [OF b2 g nf, of "[]"] nf at1
      resume_failed_falsy(2) [OF f, of ?t] True
    show ?thesis
      by (simp add: c'eq click_trace)
  next
    case False
    have "c' = track_step api cl Microtask (track_step api cl (Click s) c)"
      using False by (simp add: c' track_run_def del: track_step.simps)
    then have "c' = track_step api cl Microtask ?c1"
      by (simp only: step1)
    then have c'eq: "c' = track_result (failure_result api_missing_message) [] ?c1"
      using False k1 by simp
    have g: "get_prop (failure_result api_missing_message) ''success'' = Inr (JBool False)"
      by (simp add: failure_result_def)
    from result_state [OF b1 d1 g, of "[]"] failure_cursor [OF b1 g, of "[]"] at1 False
    show ?thesis
      by (simp add: c'eq click_trace)
  qed
qed

text \<open>
  Claim C10 (the album-level control issues no download). Whatever happens to an
  album-level control, its button, its suspended handler invocations and its state stay
  as they are, and no request is added to what it has done; it starts in Idle, so it is
  never Pending. A click that the browser delivers adds exactly the informational
  notification and the timer of 1500 ms that navigates to the album's URL.
\<close>

theorem C10_album_click_no_download:
  "button (album_step albumUrl e c) = button c \<and>
   continuations (album_step albumUrl e c) = continuations c \<and>
   control_state (album_step albumUrl e c) = control_state c \<and>
   filter is_api_call (trace (album_step albumUrl e c)) = filter is_api_call (trace c) \<and>
   control_state (new_control (album_icon albumTitle)) = Some Idle \<and>
   (attached c \<and> \<not> is_disabled (button c) \<longrightarrow>
      trace (album_step albumUrl (Click s) c) =
        trace c @ [ShowNotification coming_soon ''info'', SetTimeout 1500 (NavigateTo albumUrl)])"
  by (cases e) (simp_all add: album_click_def control_state_def new_control_def album_icon_def)

theorem C10_album_click_no_download_witness:
  "(attached (new_control (album_icon (ascii ''Album A''))) \<and>
    \<not> is_disabled (button (new_control (album_icon (ascii ''Album A''))))) \<and>
   trace (album_step (ascii ''http://localhost:8686/album/aaa'') (Click (initial_state ''/artist/abc''))
            (new_control (album_icon (ascii ''Album A'')))) =
     [ShowNotification coming_soon ''info'',
      SetTimeout 1500 (NavigateTo (ascii ''http://localhost:8686/album/aaa''))] \<and>
   control_state (album_step (ascii ''http://localhost:8686/album/aaa'')
            (Click (initial_state ''/artist/abc'')) (new_control (album_icon (ascii ''Album A'')))) =
     Some Idle"
proof -
  have h: "attached (new_control (album_icon (ascii ''Album A''))) \<and>
           \<not> is_disabled (button (new_control (album_icon (ascii ''Album A''))))"
    by (simp add: new_control_def album_icon_def is_disabled_def)
  have t: "trace (new_control (album_icon (ascii ''Album A''))) = []"
    by (simp add: new_control_def)
  show ?thesis
    using C10_album_click_no_download [of "ascii ''http://localhost:8686/album/aaa''"
        "Click (initial_state ''/artist/abc'')" "new_control (album_icon (ascii ''Album A''))"
        "ascii ''Album A''" "initial_state ''/artist/abc''"] h t
    by simp
qed





text \<open>
  Claim C7 (failure handling of a single download). As stated, the claim fails on the
  value returned: a payload whose \<open>success\<close> is falsy is returned as it is, whatever it
  holds. For the payload \<open>{}\<close> the call shows the error notification and returns \<open>{}\<close>,
  which has neither \<open>success: false\<close> nor an \<open>error\<close>.
\<close>

theorem C7_payload_returned_as_is_counterexample:
  "downloadTrack True (always (Inr (JObj []))) (JStr (ascii ''Metallica''))
      (JStr (ascii ''Enter Sandman'')) (JStr (ascii ''Metallica'')) JUndefined JUndefined =
     ([ApiCall (Request ''/api/download-track''
         (Some (JObj [(''artist'', JStr (ascii ''Metallica'')),
                      (''title'', JStr (ascii ''Enter Sandman'')),
                      (''album'', JStr (ascii ''Metallica'')), (''track_number'', JNum 1)]))),
       ShowNotification (ballot_x @ ascii '' Failed: Enter Sandman'') ''error''],
      JObj []) \<and>
   lookup_prop (JObj []) ''success'' = JUndefined \<and>
   lookup_prop (JObj []) ''error'' = JUndefined"
  by code_simp

lemma downloadTrack_failed_run:
  assumes "\<not> api \<or> request_failed (net (downloadTrack_request a t al aid tn))"
  shows "downloadTrack api net a t al aid tn =
           (if \<not> api
            then ([ShowNotification api_missing_message ''error''],
                  JObj [(''success'', JBool False), (''error'', JStr api_missing_message)])
            else case net (downloadTrack_request a t al aid tn) of
                   Inl m \<Rightarrow>
                     ([ApiCall (downloadTrack_request a t al aid tn),
                       ShowNotification (ascii ''Error: '' @ m) ''error''],
                      JObj [(''success'', JBool False), (''error'', JStr m)])
                 | Inr result \<Rightarrow>
                     (case get_prop result ''success'' of
                        Inl m \<Rightarrow>
                          ([ApiCall (downloadTrack_request a t al aid tn),
                            ShowNotification (ascii ''Error: '' @ m) ''error''],
                           JObj [(''success'', JBool False), (''error'', JStr m)])
                      | Inr v \<Rightarrow>
                          ([ApiCall (downloadTrack_request a t al aid tn),
                            ShowNotification (ballot_x @ ascii '' Failed: '' @ js_to_string t)
                              ''error''],
                           result)))"
proof (cases api)
  case False
  then show ?thesis
    by (simp add: downloadTrack_def downloadTrack_begin_def failure_result_def)
next
  case True
  with assms have f: "request_failed (net (downloadTrack_request a t al aid tn))" by simp
  from True show ?thesis
    by (simp add: downloadTrack_def downloadTrack_begin_def resume_failed_result [OF f]
        caught_def failure_result_def split: sum.split)
qed

text \<open>
  Claim C7 as amended. A call fails when there is no API or when its request fails. Then
  \<open>downloadTrack\<close> returns a value (nothing is thrown) after exactly one notification,
  of type \<open>error\<close>: without an API the notification shows the message about the missing
  API and the value is \<open>{success: false, error: message}\<close> with that message, and no
  request is made; when the promise was rejected or the payload was \<open>null\<close> or
  \<open>undefined\<close> the notification shows \<open>Error: message\<close> and the value is
  \<open>{success: false, error: message}\<close> with the message of the error; when the payload is
  one whose \<open>success\<close> is falsy the notification names the title and the value is the
  payload itself. In each case the \<open>success\<close> of the value returned is falsy. A control
  that is enabled, in the page and not busy, clicked and then resumed with that failure,
  ends in Failure: enabled, with the pointer cursor, in the page, no handler suspended,
  so that the next click is delivered; its trace has grown by the request (if any) and
  the one error notification.
\<close>

theorem C7_download_failure_amended:
  assumes "\<not> api \<or> request_failed (net (downloadTrack_request a t al aid tn))"
    and "button c = Element tg at st cs" and "attached c" and "\<not> is_disabled (button c)"
    and "continuations c = []"
    and "\<not> api \<or> request_failed settled"
    and "c' = track_run api cl [Click s, if api then Settle settled else Microtask] c"
  shows "downloadTrack api net a t al aid tn =
           (if \<not> api
            then ([ShowNotification api_missing_message ''error''],
                  JObj [(''success'', JBool False), (''error'', JStr api_missing_message)])
            else case net (downloadTrack_request a t al aid tn) of
                   Inl m \<Rightarrow>
                     ([ApiCall (downloadTrack_request a t al aid tn),
                       ShowNotification (ascii ''Error: '' @ m) ''error''],
                      JObj [(''success'', JBool False), (''error'', JStr m)])
                 | Inr result \<Rightarrow>
                     (case get_prop result ''success'' of
                        Inl m \<Rightarrow>
                          ([ApiCall (downloadTrack_request a t al aid tn),
                            ShowNotification (ascii ''Error: '' @ m) ''error''],
                           JObj [(''success'', JBool False), (''error'', JStr m)])
                      | Inr v \<Rightarrow>
                          ([ApiCall (downloadTrack_request a t al aid tn),
                            ShowNotification (ballot_x @ ascii '' Failed: '' @ js_to_string t)
                              ''error''],
                           result))) \<and>
         \<not> js_truthy (lookup_prop (snd (downloadTrack api net a t al aid tn)) ''success'') \<and>
         map notification_type (fst (downloadTrack api net a t al aid tn)) =
           (if api then [None, Some ''error''] else [Some ''error'']) \<and>
         control_state c' = Some Failure \<and> \<not> is_disabled (button c') \<and>
         map_of (styles (button c')) ''cursor'' = Some ''pointer'' \<and> attached c' \<and>
         continuations c' = [] \<and>
         map notification_type (trace c') =
           map notification_type (trace c) @ (if api then [None, Some ''error''] else [Some ''error''])"
proof -
  note r = downloadTrack_failed_run [where api = api and net = net and a = a and t = t
      and al = al and aid = aid and tn = tn, OF assms(1)]
  note d = downloadTrack_failed [where api = api and net = net and a = a and t = t and al = al
      and aid = aid and tn = tn, OF assms(1)]
  note k = failed_click_control [OF assms(2) assms(3) assms(4) assms(5) assms(6) assms(7)]
  from r d(2) d(3) k show ?thesis by (intro conjI) simp_all
qed

text \<open>
  The amended claim on a network error, on the failure response of scenario D and without
  an API: the value returned and the trace of each call, and the control after the click
  and the failure.
\<close>

theorem C7_download_failure_amended_witness:
  "downloadTrack True (always (apiRequest True OnError)) (JStr (ascii ''Metallica''))
      (JStr (ascii ''Enter Sandman'')) (JStr (ascii ''Metallica'')) JUndefined JUndefined =
     ([ApiCall (Request ''/api/download-track''
         (Some (JObj [(''artist'', JStr (ascii ''Metallica'')),
                      (''title'', JStr (ascii ''Enter Sandman'')),
                      (''album'', JStr (ascii ''Metallica'')), (''track_number'', JNum 1)]))),
       ShowNotification (ascii ''Error: '' @ ascii ''Network error'') ''error''],
      JObj [(''success'', JBool False), (''error'', JStr (ascii ''Network error''))]) \<and>
   control_state (track_run True closure_a
      [Click (initial_state ''/album/aaa''), Settle (apiRequest True OnError)]
      (new_control track_icon)) = Some Failure \<and>
   \<not> is_disabled (button (track_run True closure_a
      [Click (initial_state ''/album/aaa''), Settle (apiRequest True OnError)]
      (new_control track_icon))) \<and>
   downloadTrack True (always (Inr not_found_response)) (JStr (ascii ''Metallica''))
      (JStr (ascii ''Enter Sandman'')) (JStr (ascii ''Metallica'')) JUndefined JUndefined =
     ([ApiCall (Request ''/api/download-track''
         (Some (JObj [(''artist'', JStr (ascii ''Metallica'')),
                      (''title'', JStr (ascii ''Enter Sandman'')),
                      (''album'', JStr (ascii ''Metallica'')), (''track_number'', JNum 1)]))),
       ShowNotification (ballot_x @ ascii '' Failed: '' @ ascii ''Enter Sandman'') ''error''],
      not_found_response) \<and>
   control_state (track_run True closure_a
      [Click (initial_state ''/album/aaa''), Settle (Inr not_found_response)]
      (new_control track_icon)) = Some Failure \<and>
   \<not> is_disabled (button (track_run True closure_a
      [Click (initial_state ''/album/aaa''), Settle (Inr not_found_response)]
      (new_control track_icon))) \<and>
   downloadTrack False (always (Inr not_found_response)) (JStr (ascii ''Metallica''))
      (JStr (ascii ''Enter Sandman'')) (JStr (ascii ''Metallica'')) JUndefined JUndefined =
     ([ShowNotification api_missing_message ''error''],
      JObj [(''success'', JBool False), (''error'', JStr api_missing_message)]) \<and>
   control_state (track_run False closure_a [Click (initial_state ''/album/aaa''), Microtask]
      (new_control track_icon)) = Some Failure"
proof -
  let ?a = "JStr (ascii ''Metallica'')"
  let ?t = "JStr (ascii ''Enter Sandman'')"
  let ?s = "initial_state ''/album/aaa''"
  have e: "request_failed (apiRequest True OnError)"
    by (simp add: request_failed_def)
  have f: "request_failed (Inr not_found_response)"
    by (simp add: request_failed_def not_found_response_def)
  have g: "get_prop not_found_response ''success'' = Inr (JBool False)"
    by (simp add: not_found_response_def)
  have rq: "downloadTrack_request ?a ?t ?a JUndefined JUndefined =
      Request ''/api/download-track''
         (Some (JObj [(''artist'', ?a), (''title'', ?t), (''album'', ?a),
                      (''track_number'', JNum 1)]))"
    by (simp add: downloadTrack_request_def default_arg_def)
  have js: "js_to_string ?t = ascii ''Enter Sandman''"
    by simp
  have b: "button (new_control track_icon) =
      Element ''button''
       [(''class'', ascii ''blissful-track-action-icon IconButton-button-t4C5V Link-link-RInnp''),
        (''aria-label'', ascii ''Download with Blissful''),
        (''title'', ascii ''Download with Blissful''),
        (''type'', ascii ''button'')]
       icon_styles [Text musical_note]"
    by (simp add: new_control_def track_icon_def)
  have c: "attached (new_control track_icon)" "\<not> is_disabled (button (new_control track_icon))"
    "continuations (new_control track_icon) = []"
    by (simp_all add: new_control_def track_icon_def is_disabled_def)
  note one = C7_download_failure_amended [where api = True
      and net = "always (apiRequest True OnError)" and a = ?a and t = ?t and al = ?a
      and aid = JUndefined and tn = JUndefined and c = "new_control track_icon"
      and settled = "apiRequest True OnError" and cl = closure_a and s = ?s,
      OF _ b c(1) c(2) c(3) _ refl]
  note two = C7_download_failure_amended [where api = True
      and net = "always (Inr not_found_response)" and a = ?a and t = ?t and al = ?a
      and aid = JUndefined and tn = JUndefined and c = "new_control track_icon"
      and settled = "Inr not_found_response" and cl = closure_a and s = ?s,
      OF _ b c(1) c(2) c(3) _ refl]
  note three = C7_download_failure_amended [where api = False
      and net = "always (Inr not_found_response)" and a = ?a and t = ?t and al = ?a
      and aid = JUndefined and tn = JUndefined and c = "new_control track_icon"
      and settled = "Inr not_found_response" and cl = closure_a and s = ?s,
      OF _ b c(1) c(2) c(3) _ refl]
  have r1: "downloadTrack True (always (apiRequest True OnError)) ?a ?t ?a JUndefined JUndefined =
     ([ApiCall (Request ''/api/download-track''
         (Some (JObj [(''artist'', ?a), (''title'', ?t), (''album'', ?a),
                      (''track_number'', JNum 1)]))),
       ShowNotification (ascii ''Error: '' @ ascii ''Network error'') ''error''],
      JObj [(''success'', JBool False), (''error'', JStr (ascii ''Network error''))])"
    and k1: "control_state (track_run True closure_a [Click ?s, Settle (apiRequest True OnError)]
      (new_control track_icon)) = Some Failure"
    and d1: "\<not> is_disabled (button (track_run True closure_a
      [Click ?s, Settle (apiRequest True OnError)] (new_control track_icon)))"
    using one e by (simp_all add: always_def rq)
  have r2: "downloadTrack True (always (Inr not_found_response)) ?a ?t ?a JUndefined JUndefined =
     ([ApiCall (Request ''/api/download-track''
         (Some (JObj [(''artist'', ?a), (''title'', ?t), (''album'', ?a),
                      (''track_number'', JNum 1)]))),
       ShowNotification (ballot_x @ ascii '' Failed: '' @ ascii ''Enter Sandman'') ''error''],
      not_found_response)"
    and k2: "control_state (track_run True closure_a [Click ?s, Settle (Inr not_found_response)]
      (new_control track_icon)) = Some Failure"
    and d2: "\<not> is_disabled (button (track_run True closure_a
      [Click ?s, Settle (Inr not_found_response)] (new_control track_icon)))"
    using two f by (simp_all add: always_def rq g js)
  have r3: "downloadTrack False (always (Inr not_found_response)) ?a ?t ?a JUndefined JUndefined =
     ([ShowNotification api_missing_message ''error''],
      JObj [(''success'', JBool False), (''error'', JStr api_missing_message)])"
    and k3: "control_state (track_run False closure_a [Click ?s, Microtask]
      (new_control track_icon)) = Some Failure"
    using three by simp_all
  from r1 k1 d1 r2 k2 d2 r3 k3 show ?thesis by (intro conjI)
qed

section \<open>What the script writes into the page: proofs\<close>

lemma marked_icons: "is_marked track_icon" "is_marked (album_icon t)"
  by (simp_all add: is_marked_def has_class_def track_icon_def album_icon_def ascii_def
      is_html_space_def)

lemma is_marked_modify_append:
  "is_marked (modify (append_child b) p n) = is_marked n"
proof (cases n)
  case (Element t a st cs)
  then show ?thesis
    by (cases p) (simp_all add: is_marked_def has_class_def)
next
  case (Text s)
  then show ?thesis by (cases p) simp_all
qed

lemma map_filter_update:
  assumes "P c' = P (cs ! i)" and "f c' = f (cs ! i)"
  shows "map f (filter P (cs[i := c'])) = map f (filter P cs)"
  using assms
proof (induction cs arbitrary: i)
  case Nil
  then show ?case by simp
next
  case (Cons c cs)
  then show ?case by (cases i) auto
qed

lemma strip_marked_append:
  assumes "is_marked b"
  shows "strip_marked (modify (append_child b) p n) = strip_marked n"
proof (induction p arbitrary: n)
  case Nil
  then show ?case using assms by (cases n) simp_all
next
  case (Cons i p)
  show ?case
  proof (cases n)
    case (Text s)
    then show ?thesis by simp
  next
    case (Element t a st cs)
    show ?thesis
    proof (cases "i < length cs")
      case False
      with Element show ?thesis by simp
    next
      case True
      have "map strip_marked (filter (\<lambda>c. \<not> is_marked c) (cs[i := modify (append_child b) p (cs ! i)])) =
            map strip_marked (filter (\<lambda>c. \<not> is_marked c) cs)"
        by (rule map_filter_update) (simp_all add: is_marked_modify_append Cons.IH)
      with Element True show ?thesis by simp
    qed
  qed
qed

lemma strip_marked_album_cell:
  "strip_marked (injectAlbumIcons_cell w p doc) = strip_marked doc"
  by (simp add: injectAlbumIcons_cell_def appendChild_def strip_marked_append marked_icons
      split: option.split)

lemma strip_marked_track_cell:
  "strip_marked (injectTrackActionIcons_cell p doc) = strip_marked doc"
  by (simp add: injectTrackActionIcons_cell_def appendChild_def strip_marked_append marked_icons
      split: option.split)

lemma strip_marked_fold:
  assumes "\<And>p d. strip_marked (step p d) = strip_marked d"
  shows "strip_marked (fold step ps doc) = strip_marked doc"
  using assms by (induction ps arbitrary: doc) simp_all

lemma strip_marked_injectAlbumIcons:
  "strip_marked (injectAlbumIcons path doc) = strip_marked doc"
  unfolding injectAlbumIcons_def by (rule strip_marked_fold) (rule strip_marked_album_cell)

lemma strip_marked_track_resume:
  "strip_marked (injectTrackActionIcons_resume info doc) = strip_marked doc"
proof (cases info)
  case None
  then show ?thesis by (simp add: injectTrackActionIcons_resume_def)
next
  case (Some i)
  then show ?thesis
    unfolding injectTrackActionIcons_resume_def
    by (simp add: strip_marked_fold [where step = injectTrackActionIcons_cell, OF strip_marked_track_cell])
qed

lemma strip_marked_injectIcons:
  "strip_marked (snd (injectIcons net (s, doc))) = strip_marked doc"
  by (simp add: injectIcons_def injectTrackActionIcons_def strip_marked_injectAlbumIcons
      strip_marked_track_resume split: prod.split)

lemma get_node_modify_same:
  "get_node (modify f p n) p = map_option f (get_node n p)"
proof (induction p arbitrary: n)
  case Nil
  then show ?case by simp
next
  case (Cons i p)
  then show ?case by (cases n) simp_all
qed

lemma get_node_set_style:
  assumes "p \<noteq> []"
  shows "get_node (set_style k v n) p = get_node n p"
proof (cases n)
  case (Element t a st cs)
  with assms show ?thesis by (cases p) simp_all
next
  case (Text s)
  then show ?thesis by simp
qed

lemma modify_Element:
  assumes "p \<noteq> []"
  shows "\<exists>cs'. modify f p (Element t a st cs) = Element t a st cs'"
  using assms by (cases p) simp_all

text \<open>
  Claim C9 (marker-only durable state). As stated, the claim fails for the row update
  after a successful download: on a track row whose status cell holds the warning icon,
  \<open>updateTrackRowStatus\<close> removes that icon of the host page, appends a check icon that
  carries no marker class, and sets the opacity of the row; with all marked controls
  taken out, the row is not what it was.
\<close>

theorem C9_row_update_counterexample:
  "querySelector_path (attr_contains ''class'' ''TrackRow-status'') track_row = Some [2] \<and>
   updateTrackRowStatus_dom [2] track_row =
     Element ''tr'' [(''class'', ascii ''TrackRow-row-x1'')] [(''opacity'', ''0.7'')]
       (track_cells [check_icon]) \<and>
   strip_marked (updateTrackRowStatus_dom [2] track_row) \<noteq> strip_marked track_row"
  by code_simp

text \<open>
  Claim C9 as amended. The injectors write nothing but their marked controls: with the
  marked elements taken out, the page after \<open>injectAlbumIcons\<close>, after the loop of
  \<open>injectTrackActionIcons\<close> and after a whole scan is the page before. The row update
  after a successful download does alter the host row: the status cell becomes what
  it was without its first warning icon and with an unmarked check icon appended, and
  the style of the row gets the opacity 0.7.
\<close>

theorem C9_marker_only_amended:
  "strip_marked (injectAlbumIcons path doc) = strip_marked doc \<and>
   strip_marked (injectTrackActionIcons_resume info doc) = strip_marked doc \<and>
   strip_marked (snd (injectIcons net (s, doc))) = strip_marked doc \<and>
   \<not> is_marked check_icon \<and>
   (sp \<noteq> [] \<and> get_node (Element t a st cs) sp = Some statusCell \<longrightarrow>
      get_node (updateTrackRowStatus_dom sp (Element t a st cs)) sp =
        Some (append_child check_icon (remove_warning_icon statusCell)) \<and>
      styles (updateTrackRowStatus_dom sp (Element t a st cs)) = assoc_set ''opacity'' ''0.7'' st)"
proof -
  have u: "\<not> is_marked check_icon"
    by (simp add: is_marked_def has_class_def check_icon_def ascii_def is_html_space_def)
  have r: "get_node (updateTrackRowStatus_dom sp (Element t a st cs)) sp =
        Some (append_child check_icon (remove_warning_icon statusCell)) \<and>
      styles (updateTrackRowStatus_dom sp (Element t a st cs)) = assoc_set ''opacity'' ''0.7'' st"
    if ne: "sp \<noteq> []" and g: "get_node (Element t a st cs) sp = Some statusCell"
  proof -
    let ?f = "\<lambda>statusCell. append_child check_icon (remove_warning_icon statusCell)"
    obtain cs' where m: "modify ?f sp (Element t a st cs) = Element t a st cs'"
      using modify_Element [OF ne] by blast
    show ?thesis
      using ne g get_node_modify_same [of ?f sp "Element t a st cs"]
        get_node_set_style [OF ne, of "''opacity''" "''0.7''" "modify ?f sp (Element t a st cs)"]
      by (simp add: updateTrackRowStatus_dom_def m)
  qed
  show ?thesis
    using u r
    by (simp add: strip_marked_injectAlbumIcons strip_marked_track_resume strip_marked_injectIcons)
qed

theorem C9_marker_only_amended_witness:
  "get_node track_row [2] = Some (status_cell [warning_icon]) \<and>
   get_node (updateTrackRowStatus_dom [2] track_row) [2] = Some (status_cell [check_icon]) \<and>
   styles (updateTrackRowStatus_dom [2] track_row) = [(''opacity'', ''0.7'')]"
proof -
  have g: "get_node (Element ''tr'' [(''class'', ascii ''TrackRow-row-x1'')] []
             (track_cells [warning_icon])) [2] = Some (status_cell [warning_icon])"
    by (simp add: track_cells_def)
  have r: "append_child check_icon (remove_warning_icon (status_cell [warning_icon])) =
             status_cell [check_icon]"
    by code_simp
  show ?thesis
    using C9_marker_only_amended [where sp = "[2]" and t = "''tr''"
        and a = "[(''class'', ascii ''TrackRow-row-x1'')]" and st = "[]"
        and cs = "track_cells [warning_icon]" and statusCell = "status_cell [warning_icon]"] g r
    by (simp add: track_row_def)
qed

section \<open>Idempotence of the injectors: proofs\<close>

inductive_cases grown_ElementE: "grown (Element t a st cs) n'"

inductive_cases grown_TextE: "grown (Text s) n'"

lemma sel_children: "sel P \<Longrightarrow> P (Element t a st cs) = P (Element t a st' cs')"
  unfolding sel_def by blast

lemma sel_Text: "sel P \<Longrightarrow> \<not> P (Text s)"
  unfolding sel_def by blast

lemma blind_sel: "blind P \<Longrightarrow> sel P"
  by (simp add: blind_def)

lemma blind_icon: "blind P \<Longrightarrow> is_icon b \<Longrightarrow> \<not> P b"
  by (simp add: blind_def)

lemma icon_shape:
  assumes "is_icon b"
  obtains a where "b = Element ''button'' a icon_styles [Text musical_note]"
  using assms by (auto simp: is_icon_def track_icon_def album_icon_def)

lemma grown_refl: "grown n n"
proof (induction n)
  case (Element t a st cs)
  then have "list_all2 grown cs cs" by (simp add: list_all2_same)
  then have "grown (Element t a st cs) (Element t a st (cs @ []))"
    by (rule grown_Element) simp
  then show ?case by simp
next
  case (Text s)
  show ?case by (rule grown_Text)
qed

lemma grown_append:
  assumes "is_icon b"
  shows "grown n (modify (append_child b) p n)"
proof (induction p arbitrary: n)
  case Nil
  show ?case
  proof (cases n)
    case (Element t a st cs)
    have "grown (Element t a st cs) (Element t a st (cs @ [b]))"
      by (rule grown_Element) (simp_all add: list_all2_same grown_refl assms)
    with Element show ?thesis by simp
  next
    case (Text s)
    then show ?thesis by (simp add: grown_Text)
  qed
next
  case (Cons i p)
  show ?case
  proof (cases n)
    case (Text s)
    then show ?thesis by (simp add: grown_Text)
  next
    case (Element t a st cs)
    show ?thesis
    proof (cases "i < length cs")
      case False
      with Element show ?thesis by (simp add: grown_refl)
    next
      case True
      have "list_all2 grown (cs[i := cs ! i]) (cs[i := modify (append_child b) p (cs ! i)])"
        by (rule list_all2_update_cong) (simp_all add: list_all2_same grown_refl Cons.IH)
      then have "list_all2 grown cs (cs[i := modify (append_child b) p (cs ! i)])"
        by simp
      then have "grown (Element t a st cs)
                   (Element t a st (cs[i := modify (append_child b) p (cs ! i)] @ []))"
        by (rule grown_Element) simp
      with Element True show ?thesis by simp
    qed
  qed
qed

lemma grown_sel:
  assumes "grown n n'" and "sel P"
  shows "P n' = P n"
  using assms by (cases rule: grown.cases) (auto dest: sel_children)

subsection \<open>Searches\<close>

lemma icon_find_first:
  assumes "is_icon b" and "blind P"
  shows "find_first P b = None"
proof -
  from assms(1) obtain a where b: "b = Element ''button'' a icon_styles [Text musical_note]"
    by (rule icon_shape)
  have "\<not> P b" using assms by (simp add: blind_icon)
  moreover have "\<not> P (Text musical_note)" using assms(2) by (simp add: sel_Text blind_sel)
  ultimately show ?thesis by (simp add: b)
qed

lemma icons_find_first_list:
  assumes "list_all is_icon bs" and "blind P"
  shows "find_first_list P bs = None"
  using assms by (induction bs) (simp_all add: icon_find_first)

lemma find_first_list_grown:
  assumes "list_all2 (\<lambda>x y. rel_option grown (find_first P x) (find_first P y)) cs cs'"
    and "list_all is_icon bs" and "blind P"
  shows "rel_option grown (find_first_list P cs) (find_first_list P (cs' @ bs))"
  using assms
proof (induction rule: list_all2_induct)
  case Nil
  then show ?case by (simp add: icons_find_first_list)
next
  case (Cons x xs y ys)
  then show ?case
    by (cases "find_first P x"; cases "find_first P y") simp_all
qed

lemma find_first_grown:
  assumes "grown n n'" and "blind P"
  shows "rel_option grown (find_first P n) (find_first P n')"
  using assms
proof (induction rule: grown.induct)
  case (grown_Text s)
  then show ?case by (simp add: grown.grown_Text)
next
  case (grown_Element cs cs' bs t a st)
  have g: "grown (Element t a st cs) (Element t a st (cs' @ bs))"
    by (rule grown.grown_Element) (use grown_Element in \<open>auto elim: list_all2_mono\<close>)
  have l: "rel_option grown (find_first_list P cs) (find_first_list P (cs' @ bs))"
    by (rule find_first_list_grown) (use grown_Element in \<open>auto elim: list_all2_mono\<close>)
  have p: "P (Element t a st (cs' @ bs)) = P (Element t a st cs)"
    using grown_Element.prems by (auto dest: blind_sel sel_children)
  show ?case
    using g l p by simp
qed

lemma querySelector_grown:
  assumes "grown n n'" and "blind P"
  shows "rel_option grown (querySelector P n) (querySelector P n')"
  using assms
proof (cases rule: grown.cases)
  case (grown_Text s)
  then show ?thesis by simp
next
  case (grown_Element cs cs' bs t a st)
  have "list_all2 (\<lambda>x y. rel_option grown (find_first P x) (find_first P y)) cs cs'"
    using grown_Element(3)
    by (rule list_all2_mono) (use find_first_grown [OF _ assms(2)] in blast)
  from find_first_list_grown [OF this grown_Element(4) assms(2)] grown_Element(1,2)
  show ?thesis by simp
qed

text \<open>A match that exists stays, for any selector (the markers included).\<close>

lemma find_first_list_append_mono:
  assumes "list_all2 (\<lambda>x y. find_first P x \<noteq> None \<longrightarrow> find_first P y \<noteq> None) cs cs'"
    and "find_first_list P cs \<noteq> None"
  shows "find_first_list P (cs' @ bs) \<noteq> None"
  using assms
proof (induction rule: list_all2_induct)
  case Nil
  then show ?case by simp
next
  case (Cons x xs y ys)
  then show ?case
    by (cases "find_first P x"; cases "find_first P y") auto
qed

lemma find_first_mono:
  assumes "grown n n'" and "sel P" and "find_first P n \<noteq> None"
  shows "find_first P n' \<noteq> None"
  using assms
proof (induction rule: grown.induct)
  case (grown_Text s)
  then show ?case by simp
next
  case (grown_Element cs cs' bs t a st)
  have p: "P (Element t a st (cs' @ bs)) = P (Element t a st cs)"
    using grown_Element.prems by (auto dest: sel_children)
  show ?case
  proof (cases "P (Element t a st cs)")
    case True
    with p show ?thesis by simp
  next
    case False
    with grown_Element.prems have "find_first_list P cs \<noteq> None" by simp
    moreover have "list_all2 (\<lambda>x y. find_first P x \<noteq> None \<longrightarrow> find_first P y \<noteq> None) cs cs'"
      using grown_Element.IH grown_Element.prems(1) by (auto elim!: list_all2_mono)
    ultimately have "find_first_list P (cs' @ bs) \<noteq> None"
      by (rule find_first_list_append_mono [rotated])
    with p False show ?thesis by simp
  qed
qed

lemma querySelector_mono:
  assumes "grown n n'" and "sel P" and "querySelector P n \<noteq> None"
  shows "querySelector P n' \<noteq> None"
  using assms
proof (cases rule: grown.cases)
  case (grown_Text s)
  with assms show ?thesis by simp
next
  case (grown_Element cs cs' bs t a st)
  have "list_all2 (\<lambda>x y. find_first P x \<noteq> None \<longrightarrow> find_first P y \<noteq> None) cs cs'"
    using grown_Element(3)
    by (rule list_all2_mono) (use find_first_mono [OF _ assms(2)] in blast)
  moreover have "find_first_list P cs \<noteq> None"
    using assms(3) grown_Element(1) by simp
  ultimately have "find_first_list P (cs' @ bs) \<noteq> None"
    by (rule find_first_list_append_mono)
  with grown_Element(2) show ?thesis by simp
qed

subsection \<open>Paths\<close>

lemma all_paths_list_append:
  "all_paths_list P k (xs @ ys) = all_paths_list P k xs @ all_paths_list P (k + length xs) ys"
  by (induction xs arbitrary: k) simp_all

lemma icon_all_paths:
  assumes "is_icon b" and "blind P"
  shows "all_paths P b = []"
proof -
  from assms(1) obtain a where b: "b = Element ''button'' a icon_styles [Text musical_note]"
    by (rule icon_shape)
  have "\<not> P b" using assms by (simp add: blind_icon)
  moreover have "\<not> P (Text musical_note)" using assms(2) by (simp add: sel_Text blind_sel)
  ultimately show ?thesis by (simp add: b)
qed

lemma icons_all_paths_list:
  assumes "list_all is_icon bs" and "blind P"
  shows "all_paths_list P k bs = []"
  using assms by (induction bs arbitrary: k) (simp_all add: icon_all_paths)

lemma all_paths_list_grown:
  assumes "list_all2 (\<lambda>x y. all_paths P y = all_paths P x) cs cs'"
  shows "all_paths_list P k cs' = all_paths_list P k cs"
  using assms by (induction arbitrary: k rule: list_all2_induct) simp_all

lemma all_paths_grown:
  assumes "grown n n'" and "blind P"
  shows "all_paths P n' = all_paths P n"
  using assms
proof (induction rule: grown.induct)
  case (grown_Text s)
  then show ?case by simp
next
  case (grown_Element cs cs' bs t a st)
  have p: "P (Element t a st (cs' @ bs)) = P (Element t a st cs)"
    using grown_Element.prems by (auto dest: blind_sel sel_children)
  have "list_all2 (\<lambda>x y. all_paths P y = all_paths P x) cs cs'"
    using grown_Element.IH by (rule list_all2_mono) (use grown_Element.prems in blast)
  then have "all_paths_list P 0 cs' = all_paths_list P 0 cs"
    by (rule all_paths_list_grown)
  then show ?case
    using p grown_Element.hyps grown_Element.prems
    by (simp add: all_paths_list_append icons_all_paths_list)
qed

lemma all_paths_list_valid:
  assumes "p \<in> set (all_paths_list P k cs)"
    and "\<And>c q. c \<in> set cs \<Longrightarrow> q \<in> set (all_paths P c) \<Longrightarrow> \<exists>m. get_node c q = Some m \<and> P m"
  shows "\<exists>i q. p = (k + i) # q \<and> i < length cs \<and> (\<exists>m. get_node (cs ! i) q = Some m \<and> P m)"
  using assms
proof (induction cs arbitrary: k)
  case Nil
  then show ?case by simp
next
  case (Cons c cs)
  from Cons.prems(1) consider (here) q where "p = k # q" "q \<in> set (all_paths P c)"
    | (there) "p \<in> set (all_paths_list P (Suc k) cs)"
    by auto
  then show ?case
  proof cases
    case here
    with Cons.prems(2) [of c q] have "\<exists>m. get_node c q = Some m \<and> P m" by simp
    with here show ?thesis by (intro exI [of _ 0] exI [of _ q]) simp
  next
    case there
    from Cons.IH [OF there] Cons.prems(2)
    obtain i q where "p = (Suc k + i) # q" "i < length cs"
      "\<exists>m. get_node (cs ! i) q = Some m \<and> P m"
      by auto
    then show ?thesis by (intro exI [of _ "Suc i"] exI [of _ q]) simp
  qed
qed

lemma all_paths_valid:
  assumes "p \<in> set (all_paths P n)"
  shows "\<exists>m. get_node n p = Some m \<and> P m"
  using assms
proof (induction n arbitrary: p)
  case (Text s)
  then show ?case by (auto split: if_splits)
next
  case (Element t a st cs)
  from Element.prems consider (root) "p = []" "P (Element t a st cs)"
    | (below) "p \<in> set (all_paths_list P 0 cs)"
    by (auto split: if_splits)
  then show ?case
  proof cases
    case root
    then show ?thesis by simp
  next
    case below
    from all_paths_list_valid [OF below] Element.IH
    obtain i q where "p = i # q" "i < length cs" "\<exists>m. get_node (cs ! i) q = Some m \<and> P m"
      by fastforce
    then show ?thesis by simp
  qed
qed

lemma get_node_grown:
  assumes "grown d d'" and "get_node d q = Some n"
  shows "\<exists>n'. get_node d' q = Some n' \<and> grown n n'"
  using assms
proof (induction q arbitrary: d d')
  case Nil
  then show ?case by simp
next
  case (Cons i q)
  from Cons.prems(2) obtain t a st cs where d: "d = Element t a st cs"
    and i: "i < length cs" and g: "get_node (cs ! i) q = Some n"
    by (cases d) (auto split: if_splits)
  from Cons.prems(1) d obtain cs' bs where d': "d' = Element t a st (cs' @ bs)"
    and l: "list_all2 grown cs cs'"
    by (auto elim: grown_ElementE)
  from l i have "grown (cs ! i) (cs' ! i)" and i': "i < length cs'"
    by (auto simp: list_all2_conv_all_nth)
  from Cons.IH [OF this(1) g] obtain n' where "get_node (cs' ! i) q = Some n'" "grown n n'"
    by blast
  with d' i' show ?case by (simp add: nth_append)
qed

lemma closest_grown:
  assumes "grown d d'" and "sel P" and "get_node d q \<noteq> None"
  shows "rel_option grown (closest P d q) (closest P d' q)"
  using assms
proof (induction q arbitrary: d d')
  case Nil
  then show ?case by (simp add: grown_sel)
next
  case (Cons i q)
  from Cons.prems(3) obtain t a st cs where d: "d = Element t a st cs"
    and i: "i < length cs" and g: "get_node (cs ! i) q \<noteq> None"
    by (cases d) (auto split: if_splits)
  from Cons.prems(1) d obtain cs' bs where d': "d' = Element t a st (cs' @ bs)"
    and l: "list_all2 grown cs cs'"
    by (auto elim: grown_ElementE)
  from l i have c: "grown (cs ! i) (cs' ! i)" and i': "i < length cs'"
    by (auto simp: list_all2_conv_all_nth)
  have r: "rel_option grown (closest P (cs ! i) q) (closest P (cs' ! i) q)"
    by (rule Cons.IH [OF c Cons.prems(2) g])
  have p: "P d' = P d" by (rule grown_sel [OF Cons.prems(1) Cons.prems(2)])
  show ?case
  proof (cases "closest P (cs ! i) q")
    case None
    with r have "closest P (cs' ! i) q = None" by (cases "closest P (cs' ! i) q") simp_all
    with None p Cons.prems(1) show ?thesis
      using i i' unfolding d d' by (simp add: nth_append)
  next
    case (Some x)
    with r obtain y where "closest P (cs' ! i) q = Some y" "grown x y"
      by (cases "closest P (cs' ! i) q") simp_all
    with Some show ?thesis
      using i i' unfolding d d' by (simp add: nth_append)
  qed
qed

subsection \<open>Text\<close>

lemma noted_refl: "noted s s"
  by (induction s) (auto intro: noted.intros)

lemma noted_append:
  assumes "noted a a'" and "noted b b'"
  shows "noted (a @ b) (a' @ b')"
  using assms by (induction rule: noted.induct) (auto intro: noted.intros)

lemma noted_concat:
  assumes "list_all2 noted xs ys"
  shows "noted (concat xs) (concat ys)"
  using assms by (induction rule: list_all2_induct) (auto intro: noted.intros noted_append)

lemma icon_text:
  assumes "is_icon b"
  shows "textContent b = musical_note"
  using assms by (auto elim!: icon_shape)

lemma icons_text_noted:
  assumes "list_all is_icon bs"
  shows "noted [] (concat (map textContent bs))"
  using assms
proof (induction bs)
  case Nil
  show ?case by (simp add: noted_Nil)
next
  case (Cons b bs)
  then have "noted [] (musical_note @ concat (map textContent bs))"
    by (intro noted_note) simp
  with Cons.prems show ?case by (simp add: icon_text)
qed

lemma textContent_grown:
  assumes "grown n n'"
  shows "noted (textContent n) (textContent n')"
  using assms
proof (induction rule: grown.induct)
  case (grown_Text s)
  show ?case by (simp add: noted_refl)
next
  case (grown_Element cs cs' bs t a st)
  have "list_all2 noted (map textContent cs) (map textContent cs')"
    using grown_Element.IH by (simp add: list_all2_map1 list_all2_map2 list_all2_mono)
  then have "noted (concat (map textContent cs)) (concat (map textContent cs'))"
    by (rule noted_concat)
  from noted_append [OF this icons_text_noted [OF grown_Element.hyps]]
  show ?case by simp
qed

lemma noted_skip_ws:
  assumes "noted s s'" and "skip_ws s' = d # ds'" and "d \<noteq> 0xD83C"
  shows "\<exists>ds. skip_ws s = d # ds \<and> noted ds ds'"
  using assms
proof (induction rule: noted.induct)
  case noted_Nil
  then show ?case by (simp add: skip_ws_def)
next
  case (noted_Cons s s' c)
  then show ?case by (cases "is_ws c") (auto simp: skip_ws_def)
next
  case (noted_note s s')
  have "\<not> is_ws 0xD83C" by (simp add: is_ws_def)
  with noted_note.prems show ?case by (simp add: skip_ws_def musical_note_def)
qed

lemma noted_zero_of_n_here:
  assumes "noted s s'" and "zero_of_n_here (c # s')"
  shows "zero_of_n_here (c # s)"
proof -
  from assms(2) obtain ds' where c: "c = of_char CHR ''0''"
    and 1: "skip_ws s' = of_char CHR ''/'' # ds'"
    by (auto simp: zero_of_n_here_def split: list.splits)
  from assms(2) 1 obtain e es' where 2: "skip_ws ds' = e # es'" and e: "is_digit e"
    by (auto simp: zero_of_n_here_def split: list.splits)
  from noted_skip_ws [OF assms(1) 1] obtain ds where 3: "skip_ws s = of_char CHR ''/'' # ds"
    and n: "noted ds ds'"
    by auto
  have "e \<noteq> 0xD83C" using e by (auto simp: is_digit_def)
  from noted_skip_ws [OF n 2 this] obtain es where "skip_ws ds = e # es" by auto
  with c 3 e show ?thesis by (simp add: zero_of_n_here_def)
qed

lemma noted_zero_of_n:
  assumes "noted s s'" and "zero_of_n s'"
  shows "zero_of_n s"
  using assms
proof (induction rule: noted.induct)
  case noted_Nil
  then show ?case by simp
next
  case (noted_Cons s s' c)
  then show ?case by (auto dest: noted_zero_of_n_here)
next
  case (noted_note s s')
  from noted_note.prems have "zero_of_n s'"
    by (simp add: musical_note_def zero_of_n_here_def)
  then show ?case by (rule noted_note.IH)
qed

subsection \<open>The selectors of the script\<close>

lemma sel_attr_contains: "sel (attr_contains name sub)"
  by (simp add: sel_def attr_contains_def)

lemma sel_attr_equals: "sel (attr_equals name v)"
  by (simp add: sel_def attr_equals_def)

lemma sel_has_class: "sel (has_class cls)"
  by (simp add: sel_def has_class_def)

lemma sel_is_tag: "sel (is_tag t)"
  by (simp add: sel_def)

lemma sel_is_album_link: "sel is_album_link"
  by (simp add: sel_def is_album_link_def attr_contains_def)

lemma icon_attrs:
  assumes "is_icon b"
  shows "is_tag ''button'' b"
    and "attr ''class'' b =
           Some (ascii ''blissful-track-action-icon IconButton-button-t4C5V Link-link-RInnp'') \<or>
         attr ''class'' b =
           Some (ascii ''blissful-album-icon IconButton-button-t4C5V Link-link-RInnp'')"
    and "attr ''data-icon'' b = None"
  using assms by (auto simp: is_icon_def track_icon_def album_icon_def)

lemma icon_classes_exclude:
  "\<not> str_includes (ascii ''blissful-track-action-icon IconButton-button-t4C5V Link-link-RInnp'')
       (ascii ''AlbumSearchCell'')"
  "\<not> str_includes (ascii ''blissful-album-icon IconButton-button-t4C5V Link-link-RInnp'')
       (ascii ''AlbumSearchCell'')"
  "\<not> str_includes (ascii ''blissful-track-action-icon IconButton-button-t4C5V Link-link-RInnp'')
       (ascii ''TrackActionsCell'')"
  "\<not> str_includes (ascii ''blissful-album-icon IconButton-button-t4C5V Link-link-RInnp'')
       (ascii ''TrackActionsCell'')"
  "\<not> str_includes (ascii ''blissful-track-action-icon IconButton-button-t4C5V Link-link-RInnp'')
       (ascii ''Label'')"
  "\<not> str_includes (ascii ''blissful-album-icon IconButton-button-t4C5V Link-link-RInnp'')
       (ascii ''Label'')"
  "\<not> str_includes (ascii ''blissful-track-action-icon IconButton-button-t4C5V Link-link-RInnp'')
       (ascii ''TrackRow-status'')"
  "\<not> str_includes (ascii ''blissful-album-icon IconButton-button-t4C5V Link-link-RInnp'')
       (ascii ''TrackRow-status'')"
  "\<not> str_includes (ascii ''blissful-track-action-icon IconButton-button-t4C5V Link-link-RInnp'')
       (ascii ''TrackRow-title'')"
  "\<not> str_includes (ascii ''blissful-album-icon IconButton-button-t4C5V Link-link-RInnp'')
       (ascii ''TrackRow-title'')"
  by code_simp+

lemma blind_class:
  assumes "sub \<in> {''AlbumSearchCell'', ''TrackActionsCell'', ''Label'', ''TrackRow-status'',
                   ''TrackRow-title''}"
  shows "blind (attr_contains ''class'' sub)"
  unfolding blind_def
proof (intro conjI allI impI)
  show "sel (attr_contains ''class'' sub)" by (rule sel_attr_contains)
next
  fix b assume "is_icon b"
  from icon_attrs(2) [OF this] assms icon_classes_exclude
  show "\<not> attr_contains ''class'' sub b"
    by (auto simp: attr_contains_def)
qed

lemma blind_data_icon: "blind (attr_equals ''data-icon'' v)"
  by (simp add: blind_def sel_attr_equals attr_equals_def icon_attrs(3))

lemma blind_is_album_link: "blind is_album_link"
  unfolding blind_def
proof (intro conjI allI impI)
  show "sel is_album_link" by (rule sel_is_album_link)
next
  fix b assume "is_icon b"
  then obtain a where "b = Element ''button'' a icon_styles [Text musical_note]"
    by (rule icon_shape)
  then show "\<not> is_album_link b" by (simp add: is_album_link_def)
qed

lemma icon_has_class:
  "has_class ''blissful-album-icon'' (album_icon t)"
  "has_class ''blissful-track-action-icon'' track_icon"
  by (simp_all add: has_class_def track_icon_def album_icon_def ascii_def is_html_space_def)

lemma is_icon_intros: "is_icon track_icon" "is_icon (album_icon t)"
  by (auto simp: is_icon_def)

subsection \<open>A pass over the cells\<close>

lemma find_first_list_last:
  assumes "P b"
  shows "find_first_list P (cs @ [b]) \<noteq> None"
proof (induction cs)
  case Nil
  from assms show ?case by (cases b) simp_all
next
  case (Cons c cs)
  then show ?case by (cases "find_first P c") simp_all
qed

lemma marker_after_append:
  assumes "C cell" and "sel C" and "get_node d p = Some cell" and "M b"
  shows "\<exists>cell'. get_node (appendChild p b d) p = Some cell' \<and> querySelector M cell' \<noteq> None"
proof -
  from assms(1,2) obtain t a st cs where c: "cell = Element t a st cs"
    by (cases cell) (auto dest: sel_Text)
  have "get_node (appendChild p b d) p = Some (Element t a st (cs @ [b]))"
    using assms(3) c by (simp add: appendChild_def get_node_modify_same)
  moreover have "querySelector M (Element t a st (cs @ [b])) \<noteq> None"
    using find_first_list_last [where P = M and b = b and cs = cs, OF assms(4)] by simp
  ultimately show ?thesis by blast
qed

lemma pass_idempotent:
  fixes step :: "path \<Rightarrow> node \<Rightarrow> node"
  assumes step: "\<And>p d. step p d = (if wants p d then appendChild p (btn p d) d else d)"
    and icon: "\<And>p d. is_icon (btn p d)"
    and cells: "blind C"
    and settle: "\<And>p d. p \<in> set (all_paths C d) \<Longrightarrow> wants p d \<Longrightarrow>
                   \<not> wants p (appendChild p (btn p d) d)"
    and keep: "\<And>p q d. p \<in> set (all_paths C d) \<Longrightarrow> q \<in> set (all_paths C d) \<Longrightarrow>
                   wants p d \<Longrightarrow> \<not> wants q d \<Longrightarrow> \<not> wants q (appendChild p (btn p d) d)"
  shows "fold step (all_paths C (fold step (all_paths C d) d)) (fold step (all_paths C d) d) =
         fold step (all_paths C d) d"
proof -
  have same: "all_paths C (step p d) = all_paths C d" for p d
    using all_paths_grown [OF grown_append [OF icon] cells, of p d p d]
    by (simp add: step appendChild_def)
  have same_fold: "all_paths C (fold step ps d) = all_paths C d" for ps d
    by (induction ps arbitrary: d) (simp_all add: same)
  have kept: "\<not> wants q (fold step ps d)"
    if "set ps \<subseteq> set (all_paths C d)" "q \<in> set (all_paths C d)" "\<not> wants q d" for ps q d
    using that
  proof (induction ps arbitrary: d)
    case Nil
    then show ?case by simp
  next
    case (Cons p ps)
    have "\<not> wants q (step p d)"
      using Cons.prems keep [of p d q] by (simp add: step)
    moreover have "set ps \<subseteq> set (all_paths C (step p d))" "q \<in> set (all_paths C (step p d))"
      using Cons.prems by (simp_all add: same)
    ultimately show ?case using Cons.IH [of "step p d"] by simp
  qed
  have settled: "\<forall>q \<in> set ps. \<not> wants q (fold step ps d)"
    if "set ps \<subseteq> set (all_paths C d)" for ps d
    using that
  proof (induction ps arbitrary: d)
    case Nil
    then show ?case by simp
  next
    case (Cons p ps)
    have p: "p \<in> set (all_paths C d)" using Cons.prems by simp
    have 1: "\<not> wants p (step p d)"
      using settle [OF p] by (simp add: step)
    have s: "set ps \<subseteq> set (all_paths C (step p d))" "p \<in> set (all_paths C (step p d))"
      using Cons.prems by (simp_all add: same)
    have "\<not> wants p (fold step ps (step p d))"
      by (rule kept [OF s 1])
    moreover have "\<forall>q \<in> set ps. \<not> wants q (fold step ps (step p d))"
      by (rule Cons.IH [OF s(1)])
    ultimately show ?case by simp
  qed
  have idle: "fold step ps d = d" if "\<forall>q \<in> set ps. \<not> wants q d" for ps d
    using that by (induction ps) (simp_all add: step)
  show ?thesis
    unfolding same_fold by (rule idle) (rule settled, simp)
qed

subsection \<open>The album pass\<close>

lemma album_cell_step:
  "injectAlbumIcons_cell w p d =
     (if album_wants w p d then appendChild p (album_button p d) d else d)"
  by (auto simp: injectAlbumIcons_cell_def album_wants_def album_button_def split: option.splits)

lemma album_button_icon: "is_icon (album_button p d)"
  by (simp add: album_button_def is_icon_intros split: option.split)

lemma album_button_marker:
  "album_wants w p d \<Longrightarrow> has_class ''blissful-album-icon'' (album_button p d)"
  by (auto simp: album_wants_def album_button_def icon_has_class split: option.splits)

lemma hasMissing_grown:
  assumes "grown row row'" and "hasMissing w row'"
  shows "hasMissing w row"
proof (cases w)
  case True
  from querySelector_grown [OF assms(1) blind_is_album_link] assms(2) True
  show ?thesis
    by (cases "querySelector is_album_link row"; cases "querySelector is_album_link row'")
       (simp_all add: hasMissing_def)
next
  case False
  let ?L = "attr_contains ''class'' ''Label''"
  have b: "blind ?L" by (rule blind_class) simp
  from assms(2) False obtain l' where l': "querySelector ?L row' = Some l'"
    and z: "zero_of_n (textContent l')"
    by (auto simp: hasMissing_def split: option.splits)
  from querySelector_grown [OF assms(1) b] l' obtain l where l: "querySelector ?L row = Some l"
    and g: "grown l l'"
    by (cases "querySelector ?L row") simp_all
  from noted_zero_of_n [OF textContent_grown [OF g] z] l False
  show ?thesis by (simp add: hasMissing_def)
qed

lemma album_wants_grown:
  assumes "grown d d'" and "get_node d q \<noteq> None" and "album_wants w q d'"
  shows "album_wants w q d"
proof -
  from assms(2) obtain cell where c: "get_node d q = Some cell" by auto
  from get_node_grown [OF assms(1) c] obtain cell' where c': "get_node d' q = Some cell'"
    and gc: "grown cell cell'"
    by blast
  from assms(3) c' obtain row' where m': "querySelector (has_class ''blissful-album-icon'') cell' = None"
    and r': "closest (is_tag ''tr'') d' q = Some row'"
    and h': "hasMissing w row'" and l': "querySelector is_album_link row' \<noteq> None"
    by (auto simp: album_wants_def split: option.splits)
  have m: "querySelector (has_class ''blissful-album-icon'') cell = None"
    using querySelector_mono [OF gc sel_has_class] m' by blast
  from closest_grown [OF assms(1) sel_is_tag [of "''tr''"] assms(2)] r'
  obtain row where r: "closest (is_tag ''tr'') d q = Some row" and gr: "grown row row'"
    by (cases "closest (is_tag ''tr'') d q") simp_all
  have h: "hasMissing w row" by (rule hasMissing_grown [OF gr h'])
  have l: "querySelector is_album_link row \<noteq> None"
    using querySelector_grown [OF gr blind_is_album_link] l'
    by (cases "querySelector is_album_link row"; cases "querySelector is_album_link row'") simp_all
  from c m r h l show ?thesis by (simp add: album_wants_def)
qed

lemma album_settle:
  assumes "p \<in> set (all_paths (attr_contains ''class'' ''AlbumSearchCell'') d)"
    and "album_wants w p d"
  shows "\<not> album_wants w p (appendChild p (album_button p d) d)"
proof -
  from all_paths_valid [OF assms(1)] obtain cell where c: "get_node d p = Some cell"
    and cc: "attr_contains ''class'' ''AlbumSearchCell'' cell"
    by blast
  from marker_after_append [where C = "attr_contains ''class'' ''AlbumSearchCell''"
      and M = "has_class ''blissful-album-icon''" and b = "album_button p d",
      OF cc sel_attr_contains c album_button_marker [OF assms(2)]]
  show ?thesis by (auto simp: album_wants_def)
qed

lemma album_keep:
  assumes "q \<in> set (all_paths (attr_contains ''class'' ''AlbumSearchCell'') d)"
    and "\<not> album_wants w q d"
  shows "\<not> album_wants w q (appendChild p (album_button p d) d)"
proof -
  from all_paths_valid [OF assms(1)] have v: "get_node d q \<noteq> None" by auto
  have "grown d (appendChild p (album_button p d) d)"
    unfolding appendChild_def by (rule grown_append [OF album_button_icon])
  from album_wants_grown [OF this v] assms(2) show ?thesis by blast
qed

lemma injectAlbumIcons_idempotent:
  "injectAlbumIcons path (injectAlbumIcons path doc) = injectAlbumIcons path doc"
  unfolding injectAlbumIcons_def querySelectorAll_def
  by (rule pass_idempotent [where wants = "album_wants (str_includes path ''/wanted/missing'')"
        and btn = album_button])
     (simp_all add: album_cell_step album_button_icon blind_class album_settle album_keep)

subsection \<open>Where a node is\<close>

lemma closest_path_prefix:
  assumes "closest_path P d q = Some y"
  shows "prefix y q \<and> (\<exists>m. get_node d y = Some m \<and> P m)"
  using assms
proof (induction q arbitrary: d y)
  case Nil
  then show ?case by (auto split: if_splits)
next
  case (Cons i q)
  from Cons.prems obtain t a st cs where d: "d = Element t a st cs" and i: "i < length cs"
    by (cases d) (auto split: if_splits)
  show ?case
  proof (cases "closest_path P (cs ! i) q")
    case None
    with Cons.prems d i show ?thesis by (auto split: if_splits)
  next
    case (Some r)
    with Cons.prems d i have y: "y = i # r" by simp
    from Cons.IH [OF Some] y d i show ?thesis by simp
  qed
qed

lemma closest_by_path:
  "closest P d q = Option.bind (closest_path P d q) (get_node d)"
proof (induction q arbitrary: d)
  case Nil
  show ?case by simp
next
  case (Cons i q)
  show ?case
  proof (cases d)
    case (Text s)
    then show ?thesis by simp
  next
    case (Element t a st cs)
    show ?thesis
    proof (cases "closest_path P (cs ! i) q")
      case None
      with Element Cons.IH [of "cs ! i"] show ?thesis by simp
    next
      case (Some r)
      from closest_path_prefix [OF Some] obtain m where "get_node (cs ! i) r = Some m"
        by blast
      with Some Element Cons.IH [of "cs ! i"] show ?thesis by simp
    qed
  qed
qed

lemma closest_path_exists:
  assumes "prefix z q" and "get_node d z = Some m" and "P m" and "get_node d q \<noteq> None"
  shows "\<exists>y. closest_path P d q = Some y"
  using assms
proof (induction q arbitrary: d z)
  case Nil
  then show ?case by simp
next
  case (Cons i q)
  from Cons.prems(4) obtain t a st cs where d: "d = Element t a st cs"
    and i: "i < length cs" and g: "get_node (cs ! i) q \<noteq> None"
    by (cases d) (auto split: if_splits)
  show ?case
  proof (cases z)
    case Nil
    with Cons.prems(2,3) d have "P (Element t a st cs)" by simp
    with d i show ?thesis by (cases "closest_path P (cs ! i) q") simp_all
  next
    case z: (Cons j z')
    with Cons.prems(1) have j: "j = i" and pz: "prefix z' q" by simp_all
    from Cons.prems(2) z j d i have "get_node (cs ! i) z' = Some m" by simp
    from Cons.IH [OF pz this Cons.prems(3) g] d i show ?thesis by auto
  qed
qed

lemma closest_path_deepest:
  assumes "closest_path P d q = Some y" and "prefix z q" and "get_node d z = Some m" and "P m"
    and "get_node d q \<noteq> None"
  shows "length z \<le> length y"
  using assms
proof (induction q arbitrary: d y z)
  case Nil
  then show ?case by simp
next
  case (Cons i q)
  show ?case
  proof (cases z)
    case Nil
    then show ?thesis by simp
  next
    case z: (Cons j z')
    with Cons.prems(2) have j: "j = i" and pz: "prefix z' q" by simp_all
    from Cons.prems(5) obtain t a st cs where d: "d = Element t a st cs"
      and i: "i < length cs" and v: "get_node (cs ! i) q \<noteq> None"
      by (cases d) (auto split: if_splits)
    from Cons.prems(3) z j d i have g: "get_node (cs ! i) z' = Some m" by simp
    from closest_path_exists [where P = P, OF pz g Cons.prems(4) v] obtain r where
      r: "closest_path P (cs ! i) q = Some r" by blast
    with Cons.prems(1) d i have y: "y = i # r" by simp
    from Cons.IH [OF r pz g Cons.prems(4) v] y z show ?thesis by simp
  qed
qed

lemma closest_path_grown:
  assumes "grown d d'" and "sel P" and "get_node d q \<noteq> None"
  shows "closest_path P d' q = closest_path P d q"
  using assms
proof (induction q arbitrary: d d')
  case Nil
  then show ?case by (simp add: grown_sel)
next
  case (Cons i q)
  from Cons.prems(3) obtain t a st cs where d: "d = Element t a st cs"
    and i: "i < length cs" and g: "get_node (cs ! i) q \<noteq> None"
    by (cases d) (auto split: if_splits)
  from Cons.prems(1) d obtain cs' bs where d': "d' = Element t a st (cs' @ bs)"
    and l: "list_all2 grown cs cs'"
    by (auto elim: grown_ElementE)
  from l i have c: "grown (cs ! i) (cs' ! i)" and i': "i < length cs'"
    by (auto simp: list_all2_conv_all_nth)
  have r: "closest_path P (cs' ! i) q = closest_path P (cs ! i) q"
    by (rule Cons.IH [OF c Cons.prems(2) g])
  have p: "P (Element t a st (cs' @ bs)) = P (Element t a st cs)"
    using Cons.prems(2) by (auto dest: sel_children)
  show ?case
    using i i' r p unfolding d d' by (simp add: nth_append)
qed

lemma get_node_append:
  "get_node d (a @ b) = Option.bind (get_node d a) (\<lambda>m. get_node m b)"
proof (induction a arbitrary: d)
  case Nil
  show ?case by simp
next
  case (Cons i a)
  then show ?case by (cases d) simp_all
qed

lemma get_node_modify_append:
  assumes "get_node d y \<noteq> None"
  shows "get_node (modify (append_child b) p d) y =
           (if prefix y p
            then map_option (modify (append_child b) (drop (length y) p)) (get_node d y)
            else get_node d y)"
  using assms
proof (induction y arbitrary: d p)
  case Nil
  show ?case by simp
next
  case (Cons i y)
  from Cons.prems obtain t a st cs where d: "d = Element t a st cs"
    and i: "i < length cs" and g: "get_node (cs ! i) y \<noteq> None"
    by (cases d) (auto split: if_splits)
  show ?case
  proof (cases p)
    case Nil
    with d i show ?thesis by (simp add: nth_append)
  next
    case p: (Cons j p')
    show ?thesis
    proof (cases "j = i")
      case True
      with p d i Cons.IH [OF g, of p'] show ?thesis by simp
    next
      case False
      with p d i show ?thesis by simp
    qed
  qed
qed

subsection \<open>Where the first match is\<close>

lemma find_path_list_Some:
  assumes "find_path_list P k cs = Some x"
  shows "\<exists>i r. x = (k + i) # r \<and> i < length cs \<and> find_path P (cs ! i) = Some r \<and>
               (\<forall>j<i. find_path P (cs ! j) = None)"
  using assms
proof (induction cs arbitrary: k)
  case Nil
  then show ?case by simp
next
  case (Cons c cs)
  show ?case
  proof (cases "find_path P c")
    case (Some r)
    with Cons.prems have "x = (k + 0) # r" by simp
    with Some show ?thesis
      by (intro exI [of _ 0] exI [of _ r]) simp
  next
    case None
    with Cons.prems have "find_path_list P (Suc k) cs = Some x" by simp
    from Cons.IH [OF this] obtain i r where x: "x = (Suc k + i) # r" and i: "i < length cs"
      and f: "find_path P (cs ! i) = Some r" and n: "\<forall>j<i. find_path P (cs ! j) = None"
      by blast
    have "\<forall>j<Suc i. find_path P ((c # cs) ! j) = None"
    proof (intro allI impI)
      fix j assume "j < Suc i"
      with None n show "find_path P ((c # cs) ! j) = None" by (cases j) simp_all
    qed
    with x i f show ?thesis
      by (intro exI [of _ "Suc i"] exI [of _ r]) simp
  qed
qed

lemma find_path_list_None:
  assumes "find_path_list P k cs = None"
  shows "\<forall>c \<in> set cs. find_path P c = None"
  using assms
proof (induction cs arbitrary: k)
  case Nil
  then show ?case by simp
next
  case (Cons c cs)
  then show ?case by (cases "find_path P c") auto
qed

lemma find_first_list_None:
  assumes "\<forall>c \<in> set cs. find_first P c = None"
  shows "find_first_list P cs = None"
  using assms by (induction cs) simp_all

lemma find_first_list_nth:
  assumes "i < length cs" and "\<forall>j<i. find_first P (cs ! j) = None"
    and "find_first P (cs ! i) = Some m"
  shows "find_first_list P cs = Some m"
  using assms
proof (induction cs arbitrary: i)
  case Nil
  then show ?case by simp
next
  case (Cons c cs)
  show ?case
  proof (cases i)
    case 0
    with Cons.prems show ?thesis by simp
  next
    case (Suc i')
    from Cons.prems(2) Suc have c: "find_first P c = None" by auto
    have "find_first_list P cs = Some m"
    proof (rule Cons.IH)
      show "i' < length cs" using Cons.prems(1) Suc by simp
      show "\<forall>j<i'. find_first P (cs ! j) = None"
      proof (intro allI impI)
        fix j assume "j < i'"
        then have "Suc j < i" using Suc by simp
        with Cons.prems(2) have "find_first P ((c # cs) ! Suc j) = None" by blast
        then show "find_first P (cs ! j) = None" by simp
      qed
      show "find_first P (cs ! i') = Some m" using Cons.prems(3) Suc by simp
    qed
    with c show ?thesis by simp
  qed
qed

lemma find_first_by_path:
  "(find_path P n = None \<longrightarrow> find_first P n = None) \<and>
   (\<forall>p. find_path P n = Some p \<longrightarrow> (\<exists>m. find_first P n = Some m \<and> get_node n p = Some m))"
proof (induction n)
  case (Text s)
  show ?case by simp
next
  case (Element t a st cs)
  have ihN: "find_first P c = None" if "c \<in> set cs" and "find_path P c = None" for c
    using Element.IH [OF that(1)] that(2) by simp
  have ihS: "\<exists>m. find_first P c = Some m \<and> get_node c p = Some m"
    if "c \<in> set cs" and "find_path P c = Some p" for c p
    using Element.IH [OF that(1)] that(2) by simp
  show ?case
  proof (cases "P (Element t a st cs)")
    case True
    then show ?thesis by simp
  next
    case False
    show ?thesis
    proof (cases "find_path_list P 0 cs")
      case None
      have "\<forall>c \<in> set cs. find_first P c = None"
      proof
        fix c assume c: "c \<in> set cs"
        with find_path_list_None [OF None] have "find_path P c = None" by simp
        with c show "find_first P c = None" by (rule ihN)
      qed
      from find_first_list_None [OF this] None False show ?thesis by simp
    next
      case (Some x)
      from find_path_list_Some [OF Some] obtain i r where x: "x = i # r" and i: "i < length cs"
        and f: "find_path P (cs ! i) = Some r" and n: "\<forall>j<i. find_path P (cs ! j) = None"
        by (elim exE conjE) simp
      from i have mem: "cs ! i \<in> set cs" by simp
      from ihS [OF mem f] obtain m where m: "find_first P (cs ! i) = Some m"
        and g: "get_node (cs ! i) r = Some m"
        by (elim exE conjE)
      have "\<forall>j<i. find_first P (cs ! j) = None"
      proof (intro allI impI)
        fix j assume j: "j < i"
        with i have "cs ! j \<in> set cs" by simp
        moreover from n j have "find_path P (cs ! j) = None" by simp
        ultimately show "find_first P (cs ! j) = None" by (rule ihN)
      qed
      from find_first_list_nth [OF i this m] have "find_first_list P cs = Some m" .
      with Some x i g False show ?thesis by simp
    qed
  qed
qed

lemma find_first_path_None: "find_path P n = None \<Longrightarrow> find_first P n = None"
  using find_first_by_path [of P n] by simp

lemma find_first_path_Some:
  "find_path P n = Some p \<Longrightarrow> \<exists>m. find_first P n = Some m \<and> get_node n p = Some m"
  using find_first_by_path [of P n] by simp

lemma querySelector_by_path:
  assumes "querySelector P n = Some m"
  shows "\<exists>r. querySelector_path P n = Some r \<and> get_node n r = Some m"
proof (cases n)
  case (Text s)
  with assms show ?thesis by simp
next
  case (Element t a st cs)
  with assms have q: "find_first_list P cs = Some m" by simp
  show ?thesis
  proof (cases "find_path_list P 0 cs")
    case None
    have "\<forall>c \<in> set cs. find_first P c = None"
    proof
      fix c assume c: "c \<in> set cs"
      with find_path_list_None [OF None] have "find_path P c = None" by simp
      then show "find_first P c = None" by (rule find_first_path_None)
    qed
    from find_first_list_None [OF this] q show ?thesis by simp
  next
    case (Some x)
    from find_path_list_Some [OF Some] obtain i r where x: "x = i # r" and i: "i < length cs"
      and f: "find_path P (cs ! i) = Some r" and n: "\<forall>j<i. find_path P (cs ! j) = None"
      by (elim exE conjE) simp
    from find_first_path_Some [OF f] obtain m' where
      m': "find_first P (cs ! i) = Some m'" and g: "get_node (cs ! i) r = Some m'"
      by (elim exE conjE)
    have "\<forall>j<i. find_first P (cs ! j) = None"
      using n by (simp add: find_first_path_None)
    from find_first_list_nth [OF i this m'] q have "m' = m" by simp
    with Some x i g Element show ?thesis by simp
  qed
qed

lemma icon_find_path:
  assumes "is_icon b" and "blind P"
  shows "find_path P b = None"
proof -
  from assms(1) obtain a where b: "b = Element ''button'' a icon_styles [Text musical_note]"
    by (rule icon_shape)
  have "\<not> P b" using assms by (simp add: blind_icon)
  moreover have "\<not> P (Text musical_note)" using assms(2) by (simp add: sel_Text blind_sel)
  ultimately show ?thesis by (simp add: b)
qed

lemma icons_find_path_list:
  assumes "list_all is_icon bs" and "blind P"
  shows "find_path_list P k bs = None"
  using assms by (induction bs arbitrary: k) (simp_all add: icon_find_path)

lemma find_path_list_grown:
  assumes "list_all2 (\<lambda>x y. find_path P y = find_path P x) cs cs'"
    and "list_all is_icon bs" and "blind P"
  shows "find_path_list P k (cs' @ bs) = find_path_list P k cs"
  using assms
proof (induction arbitrary: k rule: list_all2_induct)
  case Nil
  then show ?case by (simp add: icons_find_path_list)
next
  case (Cons x xs y ys)
  then show ?case by (cases "find_path P x") simp_all
qed

lemma find_path_grown:
  assumes "grown n n'" and "blind P"
  shows "find_path P n' = find_path P n"
  using assms
proof (induction rule: grown.induct)
  case (grown_Text s)
  show ?case by simp
next
  case (grown_Element cs cs' bs t a st)
  have l: "find_path_list P 0 (cs' @ bs) = find_path_list P 0 cs"
    by (rule find_path_list_grown) (use grown_Element in \<open>auto elim: list_all2_mono\<close>)
  have p: "P (Element t a st (cs' @ bs)) = P (Element t a st cs)"
    using grown_Element.prems by (auto dest: blind_sel sel_children)
  show ?case using l p by simp
qed

lemma querySelector_path_grown:
  assumes "grown n n'" and "blind P"
  shows "querySelector_path P n' = querySelector_path P n"
  using assms
proof (cases rule: grown.cases)
  case (grown_Text s)
  then show ?thesis by simp
next
  case (grown_Element cs cs' bs t a st)
  have "list_all2 (\<lambda>x y. find_path P y = find_path P x) cs cs'"
    using grown_Element(3)
    by (rule list_all2_mono) (use find_path_grown [OF _ assms(2)] in blast)
  from find_path_list_grown [OF this grown_Element(4) assms(2)] grown_Element(1,2)
  show ?thesis by simp
qed

lemma find_path_sub:
  assumes "find_path P n = Some (u @ v)" and "get_node n u = Some m"
  shows "find_path P m = Some v"
  using assms
proof (induction u arbitrary: n)
  case Nil
  then show ?case by simp
next
  case (Cons i u)
  from Cons.prems(2) obtain t a st cs where n: "n = Element t a st cs" and i: "i < length cs"
    and g: "get_node (cs ! i) u = Some m"
    by (cases n) (auto split: if_splits)
  from Cons.prems(1) n have l: "find_path_list P 0 cs = Some (i # u @ v)"
    by (auto split: if_splits)
  from find_path_list_Some [OF l] have "find_path P (cs ! i) = Some (u @ v)"
    by (elim exE conjE) simp
  from Cons.IH [OF this g] show ?case .
qed

lemma querySelector_path_sub:
  assumes "querySelector_path P n = Some (u @ v)" and "get_node n u = Some m"
    and "u \<noteq> []" and "v \<noteq> []"
  shows "querySelector_path P m = Some v"
proof -
  from assms(3) obtain i u' where u: "u = i # u'" by (cases u) auto
  from assms(2) u obtain t a st cs where n: "n = Element t a st cs" and i: "i < length cs"
    and g: "get_node (cs ! i) u' = Some m"
    by (cases n) (auto split: if_splits)
  from assms(1) n u have l: "find_path_list P 0 cs = Some (i # u' @ v)" by simp
  from find_path_list_Some [OF l] have "find_path P (cs ! i) = Some (u' @ v)"
    by (elim exE conjE) simp
  from find_path_sub [OF this g] have f: "find_path P m = Some v" .
  with assms(4) show ?thesis by (cases m) (auto split: if_splits)
qed

subsection \<open>Blank text\<close>

lemma trim_blank: "trim s = [] \<longleftrightarrow> (\<forall>c \<in> set s. is_ws c)"
proof -
  have "trim s = [] \<longleftrightarrow> (\<forall>c \<in> set (dropWhile is_ws s). is_ws c)"
    by (simp add: trim_def dropWhile_eq_Nil_conv)
  also have "\<dots> \<longleftrightarrow> dropWhile is_ws s = []"
  proof
    assume a: "\<forall>c \<in> set (dropWhile is_ws s). is_ws c"
    show "dropWhile is_ws s = []"
    proof (rule ccontr)
      assume ne: "dropWhile is_ws s \<noteq> []"
      then have "\<not> is_ws (hd (dropWhile is_ws s))" by (rule hd_dropWhile)
      moreover from ne have "hd (dropWhile is_ws s) \<in> set (dropWhile is_ws s)" by simp
      ultimately show False using a by blast
    qed
  qed (auto dest: set_dropWhileD)
  also have "\<dots> \<longleftrightarrow> (\<forall>c \<in> set s. is_ws c)"
    by (simp add: dropWhile_eq_Nil_conv)
  finally show ?thesis .
qed

lemma textContent_sub:
  assumes "get_node n x = Some m"
  shows "set (textContent m) \<subseteq> set (textContent n)"
  using assms
proof (induction x arbitrary: n)
  case Nil
  then show ?case by simp
next
  case (Cons i x)
  from Cons.prems obtain t a st cs where n: "n = Element t a st cs" and i: "i < length cs"
    and g: "get_node (cs ! i) x = Some m"
    by (cases n) (auto split: if_splits)
  from i have "cs ! i \<in> set cs" by simp
  then have "set (textContent (cs ! i)) \<subseteq> set (textContent n)"
    unfolding n by auto
  with Cons.IH [OF g] show ?case by blast
qed

lemma blank_sub:
  assumes "get_node n x = Some m" and "trim (textContent n) = []"
  shows "trim (textContent m) = []"
  using textContent_sub [OF assms(1)] assms(2) unfolding trim_blank by blast

subsection \<open>The pass over the track action cells\<close>

lemma track_cell_step:
  "injectTrackActionIcons_cell p d = (if track_wants p d then appendChild p track_icon d else d)"
  by (auto simp: injectTrackActionIcons_cell_def track_wants_def split: option.splits)

lemma track_icon_icon: "is_icon track_icon"
  by (simp add: is_icon_def)

lemma hasWarningIcon_grown:
  assumes "grown row row'" and "hasWarningIcon row'"
  shows "hasWarningIcon row"
proof -
  let ?S = "attr_contains ''class'' ''TrackRow-status''"
  let ?W = "attr_equals ''data-icon'' ''triangle-exclamation''"
  have b: "blind ?S" by (rule blind_class) simp
  from assms(2) obtain sc' where s': "querySelector ?S row' = Some sc'"
    and w': "querySelector ?W sc' \<noteq> None"
    by (auto simp: hasWarningIcon_def split: option.splits)
  from querySelector_grown [OF assms(1) b] s' obtain sc where s: "querySelector ?S row = Some sc"
    and g: "grown sc sc'"
    by (cases "querySelector ?S row") simp_all
  from querySelector_grown [OF g blind_data_icon, of "''triangle-exclamation''"] w'
  have "querySelector ?W sc \<noteq> None"
    by (cases "querySelector ?W sc"; cases "querySelector ?W sc'") simp_all
  with s show ?thesis by (simp add: hasWarningIcon_def)
qed

lemma track_settle:
  assumes "p \<in> set (all_paths (attr_contains ''class'' ''TrackActionsCell'') d)"
    and "track_wants p d"
  shows "\<not> track_wants p (appendChild p track_icon d)"
proof -
  from all_paths_valid [OF assms(1)] obtain cell where c: "get_node d p = Some cell"
    and cc: "attr_contains ''class'' ''TrackActionsCell'' cell"
    by blast
  have m: "has_class ''blissful-track-action-icon'' track_icon"
    by (rule icon_has_class)
  from marker_after_append [where C = "attr_contains ''class'' ''TrackActionsCell''"
      and M = "has_class ''blissful-track-action-icon''" and b = track_icon,
      OF cc sel_attr_contains c m]
  show ?thesis by (auto simp: track_wants_def)
qed

lemma track_keep:
  assumes q: "q \<in> set (all_paths (attr_contains ''class'' ''TrackActionsCell'') d)"
    and wp: "track_wants p d" and nq: "\<not> track_wants q d"
  shows "\<not> track_wants q (appendChild p track_icon d)"
proof
  let ?d' = "appendChild p track_icon d"
  let ?M = "has_class ''blissful-track-action-icon''"
  let ?R = "is_tag ''tr''"
  let ?T = "attr_contains ''class'' ''TrackRow-title''"
  assume wq': "track_wants q ?d'"
  have bT: "blind ?T" by (rule blind_class) simp
  have sR: "sel ?R" by (rule sel_is_tag)
  have G: "grown d ?d'"
    unfolding appendChild_def by (rule grown_append [OF track_icon_icon])
  from all_paths_valid [OF q] obtain cell where c: "get_node d q = Some cell" by blast
  then have v: "get_node d q \<noteq> None" by simp
  from get_node_grown [OF G c] obtain cell' where c': "get_node ?d' q = Some cell'"
    and gc: "grown cell cell'"
    by blast
  from wq' c' obtain row' tc' where m': "querySelector ?M cell' = None"
    and r': "closest ?R ?d' q = Some row'" and h': "hasWarningIcon row'"
    and t': "querySelector ?T row' = Some tc'" and nb': "trim (textContent tc') \<noteq> []"
    by (auto simp: track_wants_def split: option.splits)
  have m: "querySelector ?M cell = None"
    using querySelector_mono [OF gc sel_has_class] m' by blast
  from closest_grown [OF G sR v] r'
  obtain row where r: "closest ?R d q = Some row" and gr: "grown row row'"
    by (cases "closest ?R d q") simp_all
  have h: "hasWarningIcon row" by (rule hasWarningIcon_grown [OF gr h'])
  from querySelector_grown [OF gr bT] t' obtain tc where t: "querySelector ?T row = Some tc"
    by (cases "querySelector ?T row") simp_all
  from nq c m r h t have blank: "trim (textContent tc) = []"
    by (simp add: track_wants_def)
  (* where the row and its title cell are *)
  from r obtain y where cp: "closest_path ?R d q = Some y" and gy: "get_node d y = Some row"
    by (cases "closest_path ?R d q") (simp_all add: closest_by_path)
  from closest_path_prefix [OF cp] gy have isrow: "?R row" by auto
  have "closest_path ?R ?d' q = Some y"
    using closest_path_grown [OF G sR v] cp by simp
  with r' have gy': "get_node ?d' y = Some row'" by (simp add: closest_by_path)
  from querySelector_by_path [OF t] obtain x where xp: "querySelector_path ?T row = Some x"
    and gx: "get_node row x = Some tc"
    by blast
  from querySelector_by_path [OF t'] obtain x' where "querySelector_path ?T row' = Some x'"
    and "get_node row' x' = Some tc'"
    by (elim exE conjE)
  with querySelector_path_grown [OF gr bT] xp
  have gx': "get_node row' x = Some tc'" by simp
  have gyx: "get_node d (y @ x) = Some tc" by (simp add: get_node_append gy gx)
  have gyx': "get_node ?d' (y @ x) = Some tc'" by (simp add: get_node_append gy' gx')
  have inside: "prefix (y @ x) p"
  proof (rule ccontr)
    assume "\<not> prefix (y @ x) p"
    with get_node_modify_append [of d "y @ x" track_icon p] gyx
    have "get_node ?d' (y @ x) = Some tc" by (simp add: appendChild_def)
    with gyx' blank nb' show False by simp
  qed
  then have yp: "prefix y p" by (rule append_prefixD)
  (* the row of the cell that received the button *)
  from wp obtain rowp tcp where rp: "closest ?R d p = Some rowp"
    and tp: "querySelector ?T rowp = Some tcp" and nbp: "trim (textContent tcp) \<noteq> []"
    by (auto simp: track_wants_def split: option.splits)
  from rp obtain z where zp: "closest_path ?R d p = Some z" and gz: "get_node d z = Some rowp"
    by (cases "closest_path ?R d p") (simp_all add: closest_by_path)
  from closest_path_prefix [OF zp] have pz: "prefix z p" by simp
  from querySelector_by_path [OF tp] obtain w where wq: "querySelector_path ?T rowp = Some w"
    and gw: "get_node rowp w = Some tcp"
    by blast
  have len: "length y \<le> length z"
  proof (rule closest_path_deepest [OF zp yp gy isrow])
    from wp show "get_node d p \<noteq> None" by (auto simp: track_wants_def split: option.splits)
  qed
  show False
  proof (cases "length (y @ x) \<le> length z")
    case True
    from prefix_length_prefix [OF inside pz True] obtain u where z: "z = (y @ x) @ u"
      by (auto simp: prefix_def)
    have "get_node d ((y @ x) @ u) = Option.bind (get_node d (y @ x)) (\<lambda>m. get_node m u)"
      by (rule get_node_append)
    with gz z gyx have "get_node tc u = Some rowp" by simp
    with gw have "get_node tc (u @ w) = Some tcp" by (simp add: get_node_append)
    from blank_sub [OF this blank] nbp show False by simp
  next
    case False
    then have "length z \<le> length (y @ x)" by simp
    from prefix_length_prefix [OF pz inside this] have zx: "prefix z (y @ x)" .
    from prefix_length_prefix [OF yp pz len] obtain u where z: "z = y @ u"
      by (auto simp: prefix_def)
    from zx z obtain u' where x: "x = u @ u'" by (auto simp: prefix_def)
    from False z x have ne: "u' \<noteq> []" by auto
    from gz z gy have gu: "get_node row u = Some rowp" by (simp add: get_node_append)
    have "tcp = tc"
    proof (cases "u = []")
      case True
      with gu have "rowp = row" by simp
      with tp t show ?thesis by simp
    next
      case False
      from querySelector_path_sub [OF xp [unfolded x] gu False ne] wq have "w = u'" by simp
      with gw gx x gu show ?thesis by (simp add: get_node_append)
    qed
    with blank nbp show False by simp
  qed
qed

lemma injectTrackActionIcons_resume_idempotent:
  "injectTrackActionIcons_resume info (injectTrackActionIcons_resume info doc) =
     injectTrackActionIcons_resume info doc"
proof (cases info)
  case None
  then show ?thesis by (simp add: injectTrackActionIcons_resume_def)
next
  case (Some i)
  have "fold injectTrackActionIcons_cell
          (all_paths (attr_contains ''class'' ''TrackActionsCell'')
             (fold injectTrackActionIcons_cell
                (all_paths (attr_contains ''class'' ''TrackActionsCell'') doc) doc))
          (fold injectTrackActionIcons_cell
             (all_paths (attr_contains ''class'' ''TrackActionsCell'') doc) doc) =
        fold injectTrackActionIcons_cell
          (all_paths (attr_contains ''class'' ''TrackActionsCell'') doc) doc"
    by (rule pass_idempotent [where wants = track_wants and btn = "\<lambda>p d. track_icon"])
       (simp_all add: track_cell_step track_icon_icon blind_class track_settle track_keep)
  with Some show ?thesis
    by (simp add: injectTrackActionIcons_resume_def querySelectorAll_def)
qed

lemma extractAlbumInfo_pathname:
  "pathname (snd (extractAlbumInfo f net s)) = pathname s"
  by (simp add: extractAlbumInfo_def extractAlbumInfo_begin_def extractAlbumInfo_resume_def
      split: option.split sum.split)

lemma injectTrackActionIcons_resume_twice:
  "injectTrackActionIcons_resume j (injectTrackActionIcons_resume (Some i) doc) =
     injectTrackActionIcons_resume (Some i) doc"
proof (cases j)
  case None
  then show ?thesis by (simp add: injectTrackActionIcons_resume_def)
next
  case (Some k)
  have "injectTrackActionIcons_resume (Some k) = injectTrackActionIcons_resume (Some i)"
    by (rule ext) (simp add: injectTrackActionIcons_resume_def)
  with Some show ?thesis by (simp add: injectTrackActionIcons_resume_idempotent)
qed

lemma injectIcons_twice:
  "snd (injectIcons net' (injectIcons net (s, doc))) = snd (injectIcons net (s, doc)) \<or>
   snd (injectIcons net (s, doc)) = doc"
proof (cases "str_includes (pathname s) ''/wanted/missing'' \<or> str_includes (pathname s) ''/artist/''")
  case True
  then show ?thesis
    by (auto simp: injectIcons_def injectAlbumIcons_idempotent)
next
  case out: False
  show ?thesis
  proof (cases "str_includes (pathname s) ''/album/''")
    case False
    with out show ?thesis by (simp add: injectIcons_def)
  next
    case True
    obtain ai s1 where e1: "extractAlbumInfo False net s = (ai, s1)" by (cases "extractAlbumInfo False net s")
    obtain aj s2 where e2: "extractAlbumInfo False net' s1 = (aj, s2)" by (cases "extractAlbumInfo False net' s1")
    from extractAlbumInfo_pathname [of False net s] e1 have p1: "pathname s1 = pathname s" by simp
    have one: "injectIcons net (s, doc) = (s1, injectTrackActionIcons_resume ai doc)"
      using out True e1 by (simp add: injectIcons_def injectTrackActionIcons_def)
    have two: "injectIcons net' (s1, injectTrackActionIcons_resume ai doc) =
                 (s2, injectTrackActionIcons_resume aj (injectTrackActionIcons_resume ai doc))"
      using out True e2 p1 by (simp add: injectIcons_def injectTrackActionIcons_def)
    show ?thesis
    proof (cases ai)
      case None
      with one show ?thesis by (simp add: injectTrackActionIcons_resume_def)
    next
      case (Some i)
      with one two show ?thesis by (simp add: injectTrackActionIcons_resume_twice)
    qed
  qed
qed

lemma album_cell_marked:
  assumes "get_node doc p = Some cell"
    and "querySelector (has_class ''blissful-album-icon'') cell \<noteq> None"
  shows "injectAlbumIcons_cell w p doc = doc"
  using assms by (auto simp: album_cell_step album_wants_def)

lemma track_cell_marked:
  assumes "get_node doc p = Some cell"
    and "querySelector (has_class ''blissful-track-action-icon'') cell \<noteq> None"
  shows "injectTrackActionIcons_cell p doc = doc"
  using assms by (auto simp: track_cell_step track_wants_def)

lemma album_cell_appends:
  "injectAlbumIcons_cell w p doc = doc \<or>
   (\<exists>t. injectAlbumIcons_cell w p doc = appendChild p (album_icon t) doc)"
  by (auto simp: injectAlbumIcons_cell_def split: option.splits)

subsection \<open>A cell during a pass\<close>

lemma find_first_list_append:
  "find_first_list P (xs @ ys) =
     (case find_first_list P xs of Some m \<Rightarrow> Some m | None \<Rightarrow> find_first_list P ys)"
  by (induction xs) (simp_all split: option.split)

lemma find_first_list_NoneD:
  assumes "find_first_list P cs = None" and "c \<in> set cs"
  shows "find_first P c = None"
  using assms by (induction cs) (auto split: option.splits)

lemma find_first_sub:
  assumes "get_node n r = Some m" and "P m"
  shows "find_first P n \<noteq> None"
  using assms
proof (induction r arbitrary: n)
  case Nil
  then show ?case by (cases n) auto
next
  case (Cons i r)
  from Cons.prems(1) obtain t a st cs where n: "n = Element t a st cs" and i: "i < length cs"
    and g: "get_node (cs ! i) r = Some m"
    by (cases n) (auto split: if_splits)
  from Cons.IH [OF g Cons.prems(2)] have f: "find_first P (cs ! i) \<noteq> None" .
  have "find_first_list P cs \<noteq> None"
  proof
    assume "find_first_list P cs = None"
    from find_first_list_NoneD [OF this, of "cs ! i"] i f show False by simp
  qed
  with n show ?case by simp
qed

lemma querySelector_sub:
  assumes "get_node n r = Some m" and "r \<noteq> []" and "P m"
  shows "querySelector P n \<noteq> None"
proof -
  from assms(2) obtain i r' where r: "r = i # r'" by (cases r) auto
  from assms(1) r obtain t a st cs where n: "n = Element t a st cs" and i: "i < length cs"
    and g: "get_node (cs ! i) r' = Some m"
    by (cases n) (auto split: if_splits)
  from find_first_sub [where P = P, OF g assms(3)] have f: "find_first P (cs ! i) \<noteq> None" .
  have "find_first_list P cs \<noteq> None"
  proof
    assume "find_first_list P cs = None"
    from find_first_list_NoneD [OF this, of "cs ! i"] i f show False by simp
  qed
  with n show ?thesis by simp
qed

lemma get_node_other_cell:
  assumes "p \<in> set (all_paths C d)" and "get_node d q = Some cell"
    and "querySelector C cell = None" and "p \<noteq> q"
  shows "get_node (appendChild p b d) q = Some cell"
proof (cases "prefix q p")
  case False
  with get_node_modify_append [of d q b p] assms(2) show ?thesis
    by (simp add: appendChild_def)
next
  case True
  then obtain r where p: "p = q @ r" by (auto simp: prefix_def)
  with assms(4) have r: "r \<noteq> []" by auto
  from all_paths_valid [OF assms(1)] obtain m where m: "get_node d p = Some m" and c: "C m"
    by blast
  from m p assms(2) have "get_node cell r = Some m" by (simp add: get_node_append)
  from querySelector_sub [where P = C, OF this r c] assms(3) show ?thesis by simp
qed

lemma append_child_no_cell:
  assumes "blind C" and "is_icon b" and "querySelector C cell = None"
  shows "querySelector C (append_child b cell) = None"
proof (cases cell)
  case (Text s)
  then show ?thesis by simp
next
  case (Element t a st cs)
  with assms(3) have "find_first_list C cs = None" by simp
  moreover have "find_first_list C [b] = None"
    using icon_find_first [OF assms(2) assms(1)] by simp
  ultimately show ?thesis using Element by (simp add: find_first_list_append)
qed

lemma pass_paths:
  fixes step :: "path \<Rightarrow> node \<Rightarrow> node"
  assumes step: "\<And>p d. step p d = (if wants p d then appendChild p (btn p d) d else d)"
    and icon: "\<And>p d. is_icon (btn p d)"
    and cells: "blind C"
  shows "all_paths C (fold step ps d) = all_paths C d"
proof (induction ps arbitrary: d)
  case Nil
  show ?case by simp
next
  case (Cons p ps)
  have "all_paths C (step p d) = all_paths C d"
    using all_paths_grown [OF grown_append [OF icon] cells, of p d p d]
    by (simp add: step appendChild_def)
  with Cons.IH [of "step p d"] show ?case by simp
qed

lemma pass_kept:
  fixes step :: "path \<Rightarrow> node \<Rightarrow> node"
  assumes step: "\<And>p d. step p d = (if wants p d then appendChild p (btn p d) d else d)"
    and icon: "\<And>p d. is_icon (btn p d)"
    and cells: "blind C"
    and keep: "\<And>p q d. p \<in> set (all_paths C d) \<Longrightarrow> q \<in> set (all_paths C d) \<Longrightarrow>
                   wants p d \<Longrightarrow> \<not> wants q d \<Longrightarrow> \<not> wants q (appendChild p (btn p d) d)"
    and "set ps \<subseteq> set (all_paths C d)" and "q \<in> set (all_paths C d)" and "\<not> wants q d"
  shows "\<not> wants q (fold step ps d)"
  using assms(5-)
proof (induction ps arbitrary: d)
  case Nil
  then show ?case by simp
next
  case (Cons p ps)
  have same: "all_paths C (step p d) = all_paths C d"
    using pass_paths [of step wants btn C "[p]" d, OF step icon cells] by simp
  have "\<not> wants q (step p d)"
    using Cons.prems keep [of p d q] by (simp add: step)
  moreover have "set ps \<subseteq> set (all_paths C (step p d))" "q \<in> set (all_paths C (step p d))"
    using Cons.prems by (simp_all add: same)
  ultimately show ?case using Cons.IH [of "step p d"] by simp
qed

lemma pass_settled:
  fixes step :: "path \<Rightarrow> node \<Rightarrow> node"
  assumes step: "\<And>p d. step p d = (if wants p d then appendChild p (btn p d) d else d)"
    and icon: "\<And>p d. is_icon (btn p d)"
    and cells: "blind C"
    and settle: "\<And>p d. p \<in> set (all_paths C d) \<Longrightarrow> wants p d \<Longrightarrow>
                   \<not> wants p (appendChild p (btn p d) d)"
    and keep: "\<And>p q d. p \<in> set (all_paths C d) \<Longrightarrow> q \<in> set (all_paths C d) \<Longrightarrow>
                   wants p d \<Longrightarrow> \<not> wants q d \<Longrightarrow> \<not> wants q (appendChild p (btn p d) d)"
    and "set ps \<subseteq> set (all_paths C d)" and "q \<in> set ps"
  shows "\<not> wants q (fold step ps d)"
  using assms(6-)
proof (induction ps arbitrary: d)
  case Nil
  then show ?case by simp
next
  case (Cons p ps)
  have same: "all_paths C (step p d) = all_paths C d"
    using pass_paths [of step wants btn C "[p]" d, OF step icon cells] by simp
  have p: "p \<in> set (all_paths C d)" using Cons.prems by simp
  have s: "set ps \<subseteq> set (all_paths C (step p d))"
    using Cons.prems by (simp add: same)
  show ?case
  proof (cases "q \<in> set ps")
    case True
    from Cons.IH [OF s True] show ?thesis by simp
  next
    case False
    with Cons.prems have q: "q = p" by simp
    have 1: "\<not> wants p (step p d)"
      using settle [OF p] by (simp add: step)
    have "\<not> wants p (fold step ps (step p d))"
    proof (rule pass_kept [of step wants btn C, OF step icon cells keep s _ 1])
      show "p \<in> set (all_paths C (step p d))" using p by (simp only: same)
    qed
    with q show ?thesis by simp
  qed
qed

lemma pass_cell:
  fixes step :: "path \<Rightarrow> node \<Rightarrow> node"
  assumes step: "\<And>p d. step p d = (if wants p d then appendChild p (btn p d) d else d)"
    and icon: "\<And>p d. is_icon (btn p d)"
    and cells: "blind C"
    and settle: "\<And>p d. p \<in> set (all_paths C d) \<Longrightarrow> wants p d \<Longrightarrow>
                   \<not> wants p (appendChild p (btn p d) d)"
    and keep: "\<And>p q d. p \<in> set (all_paths C d) \<Longrightarrow> q \<in> set (all_paths C d) \<Longrightarrow>
                   wants p d \<Longrightarrow> \<not> wants q d \<Longrightarrow> \<not> wants q (appendChild p (btn p d) d)"
    and "set ps \<subseteq> set (all_paths C d)" and "q \<in> set (all_paths C d)"
    and "get_node d q = Some cell" and "querySelector C cell = None"
  shows "get_node (fold step ps d) q = Some cell \<or>
         (wants q d \<and>
          (\<exists>d'. wants q d' \<and> get_node (fold step ps d) q = Some (append_child (btn q d') cell)))"
  using assms(6-)
proof (induction ps arbitrary: d cell)
  case Nil
  then show ?case by simp
next
  case (Cons p ps)
  have same: "all_paths C (step p d) = all_paths C d"
    using pass_paths [of step wants btn C "[p]" d, OF step icon cells] by simp
  have p: "p \<in> set (all_paths C d)" using Cons.prems by simp
  have s: "set ps \<subseteq> set (all_paths C (step p d))" and q: "q \<in> set (all_paths C (step p d))"
    using Cons.prems by (simp_all add: same)
  show ?case
  proof (cases "wants p d")
    case False
    then have "step p d = d" by (simp add: step)
    with Cons.IH [of d cell] Cons.prems show ?thesis by simp
  next
    case w: True
    then have d1: "step p d = appendChild p (btn p d) d" by (simp add: step)
    show ?thesis
    proof (cases "p = q")
      case False
      have g: "get_node (step p d) q = Some cell"
        unfolding d1 by (rule get_node_other_cell [OF p Cons.prems(3,4) False])
      from Cons.IH [OF s q g Cons.prems(4)]
      show ?thesis
      proof
        assume "get_node (fold step ps (step p d)) q = Some cell"
        then show ?thesis by simp
      next
        assume a: "wants q (step p d) \<and>
          (\<exists>d'. wants q d' \<and>
             get_node (fold step ps (step p d)) q = Some (append_child (btn q d') cell))"
        have "wants q d"
        proof (rule ccontr)
          assume "\<not> wants q d"
          from keep [OF p Cons.prems(2) w this] a show False by (simp add: d1)
        qed
        with a show ?thesis by simp
      qed
    next
      case True
      let ?cell = "append_child (btn q d) cell"
      have "get_node (appendChild q (btn q d) d) q = Some ?cell"
        using Cons.prems(3) get_node_modify_same [of "append_child (btn q d)" q d]
        by (simp add: appendChild_def)
      with d1 True have g: "get_node (step p d) q = Some ?cell" by simp
      have n: "querySelector C ?cell = None"
        by (rule append_child_no_cell [OF cells icon Cons.prems(4)])
      have "\<not> wants q (step p d)"
        using settle [OF p w] True w by (simp add: step)
      with Cons.IH [OF s q g n]
      have "get_node (fold step ps (step p d)) q = Some ?cell" by blast
      with w True show ?thesis by auto
    qed
  qed
qed

lemma pass_valid:
  fixes step :: "path \<Rightarrow> node \<Rightarrow> node"
  assumes step: "\<And>p d. step p d = (if wants p d then appendChild p (btn p d) d else d)"
    and icon: "\<And>p d. is_icon (btn p d)"
    and "get_node d q \<noteq> None"
  shows "get_node (fold step ps d) q \<noteq> None"
  using assms(3)
proof (induction ps arbitrary: d)
  case Nil
  then show ?case by simp
next
  case (Cons p ps)
  from Cons.prems obtain n where n: "get_node d q = Some n" by auto
  have "grown d (step p d)"
    by (simp add: step appendChild_def grown_append [OF icon] grown_refl)
  from get_node_grown [OF this n] have "get_node (step p d) q \<noteq> None" by auto
  from Cons.IH [OF this] show ?case by simp
qed

subsection \<open>The cells after the album pass\<close>

lemma album_pass_cover:
  assumes "q \<in> set (all_paths (attr_contains ''class'' ''AlbumSearchCell'') doc)"
  shows "\<not> album_wants (str_includes path ''/wanted/missing'') q (injectAlbumIcons path doc)"
  unfolding injectAlbumIcons_def querySelectorAll_def
  by (rule pass_settled [where wants = "album_wants (str_includes path ''/wanted/missing'')"
        and btn = album_button and C = "attr_contains ''class'' ''AlbumSearchCell''"])
     (simp_all add: album_cell_step album_button_icon blind_class album_settle album_keep assms)

lemma album_pass_cell:
  assumes "q \<in> set (all_paths (attr_contains ''class'' ''AlbumSearchCell'') doc)"
    and "get_node doc q = Some cell"
    and "querySelector (attr_contains ''class'' ''AlbumSearchCell'') cell = None"
  shows "get_node (injectAlbumIcons path doc) q = Some cell \<or>
         (album_wants (str_includes path ''/wanted/missing'') q doc \<and>
          (\<exists>d'. album_wants (str_includes path ''/wanted/missing'') q d' \<and>
             get_node (injectAlbumIcons path doc) q = Some (append_child (album_button q d') cell)))"
  unfolding injectAlbumIcons_def querySelectorAll_def
  by (rule pass_cell [where wants = "album_wants (str_includes path ''/wanted/missing'')"
        and btn = album_button and C = "attr_contains ''class'' ''AlbumSearchCell''"])
     (simp_all add: album_cell_step album_button_icon blind_class album_settle album_keep assms)

lemma album_pass_valid:
  assumes "get_node doc q = Some cell"
  shows "\<exists>cell'. get_node (injectAlbumIcons path doc) q = Some cell'"
proof -
  have "get_node (injectAlbumIcons path doc) q \<noteq> None"
    unfolding injectAlbumIcons_def
    by (rule pass_valid [where wants = "album_wants (str_includes path ''/wanted/missing'')"
          and btn = album_button])
       (simp_all add: album_cell_step album_button_icon assms)
  then show ?thesis by auto
qed

lemma album_cells_served:
  assumes "p \<in> set (querySelectorAll (attr_contains ''class'' ''AlbumSearchCell'') doc)"
    and "get_node doc p = Some cell"
  shows "\<exists>cell'. get_node (injectAlbumIcons path doc) p = Some cell' \<and>
           (\<forall>row. closest (is_tag ''tr'') (injectAlbumIcons path doc) p = Some row \<and>
                  hasMissing (str_includes path ''/wanted/missing'') row \<and>
                  querySelector is_album_link row \<noteq> None \<longrightarrow>
                    querySelector (has_class ''blissful-album-icon'') cell' \<noteq> None) \<and>
           (querySelector (attr_contains ''class'' ''AlbumSearchCell'') cell = None \<longrightarrow>
              cell' = cell \<or>
              querySelector (has_class ''blissful-album-icon'') cell = None \<and>
              (\<exists>row t. closest (is_tag ''tr'') doc p = Some row \<and>
                 hasMissing (str_includes path ''/wanted/missing'') row \<and>
                 querySelector is_album_link row \<noteq> None \<and>
                 cell' = append_child (album_icon t) cell))"
proof -
  let ?w = "str_includes path ''/wanted/missing''"
  let ?d = "injectAlbumIcons path doc"
  from assms(1) have p: "p \<in> set (all_paths (attr_contains ''class'' ''AlbumSearchCell'') doc)"
    by (simp add: querySelectorAll_def)
  from album_pass_valid [OF assms(2)] obtain cell' where c': "get_node ?d p = Some cell'"
    by blast
  have cover: "querySelector (has_class ''blissful-album-icon'') cell' \<noteq> None"
    if "closest (is_tag ''tr'') ?d p = Some row \<and> hasMissing ?w row \<and>
        querySelector is_album_link row \<noteq> None" for row
    using album_pass_cover [OF p, of path] c' that by (auto simp: album_wants_def)
  have exact: "cell' = cell \<or>
      querySelector (has_class ''blissful-album-icon'') cell = None \<and>
      (\<exists>row t. closest (is_tag ''tr'') doc p = Some row \<and> hasMissing ?w row \<and>
         querySelector is_album_link row \<noteq> None \<and> cell' = append_child (album_icon t) cell)"
    if n: "querySelector (attr_contains ''class'' ''AlbumSearchCell'') cell = None"
  proof -
    from album_pass_cell [OF p assms(2) n, of path]
    show ?thesis
    proof
      assume "get_node ?d p = Some cell"
      with c' show ?thesis by simp
    next
      assume a: "album_wants ?w p doc \<and>
          (\<exists>d'. album_wants ?w p d' \<and> get_node ?d p = Some (append_child (album_button p d') cell))"
      then obtain d' where w': "album_wants ?w p d'"
        and g: "get_node ?d p = Some (append_child (album_button p d') cell)"
        by blast
      from w' obtain t where t: "album_button p d' = album_icon t"
        by (auto simp: album_wants_def album_button_def split: option.splits)
      from a assms(2) obtain row where
        "querySelector (has_class ''blissful-album-icon'') cell = None"
        "closest (is_tag ''tr'') doc p = Some row" "hasMissing ?w row"
        "querySelector is_album_link row \<noteq> None"
        by (auto simp: album_wants_def split: option.splits)
      with g t c' show ?thesis by auto
    qed
  qed
  have 1: "\<forall>row. closest (is_tag ''tr'') ?d p = Some row \<and> hasMissing ?w row \<and>
                  querySelector is_album_link row \<noteq> None \<longrightarrow>
                    querySelector (has_class ''blissful-album-icon'') cell' \<noteq> None"
    using cover by blast
  have 2: "querySelector (attr_contains ''class'' ''AlbumSearchCell'') cell = None \<longrightarrow>
      cell' = cell \<or>
      querySelector (has_class ''blissful-album-icon'') cell = None \<and>
      (\<exists>row t. closest (is_tag ''tr'') doc p = Some row \<and> hasMissing ?w row \<and>
         querySelector is_album_link row \<noteq> None \<and> cell' = append_child (album_icon t) cell)"
    using exact by blast
  show ?thesis
    by (rule exI [of _ cell'], intro conjI) (rule c', rule 1, rule 2)
qed

subsection \<open>The cells after the track pass\<close>

lemma track_pass_cover:
  assumes "q \<in> set (all_paths (attr_contains ''class'' ''TrackActionsCell'') doc)"
  shows "\<not> track_wants q (injectTrackActionIcons_resume (Some i) doc)"
  unfolding injectTrackActionIcons_resume_def querySelectorAll_def option.case
  by (rule pass_settled [where wants = track_wants and btn = "\<lambda>p d. track_icon"
        and C = "attr_contains ''class'' ''TrackActionsCell''"])
     (simp_all add: track_cell_step track_icon_icon blind_class track_settle track_keep assms)

lemma track_pass_cell:
  assumes "q \<in> set (all_paths (attr_contains ''class'' ''TrackActionsCell'') doc)"
    and "get_node doc q = Some cell"
    and "querySelector (attr_contains ''class'' ''TrackActionsCell'') cell = None"
  shows "get_node (injectTrackActionIcons_resume (Some i) doc) q = Some cell \<or>
         (track_wants q doc \<and>
          get_node (injectTrackActionIcons_resume (Some i) doc) q =
            Some (append_child track_icon cell))"
proof -
  have "get_node (fold injectTrackActionIcons_cell
           (all_paths (attr_contains ''class'' ''TrackActionsCell'') doc) doc) q = Some cell \<or>
        (track_wants q doc \<and>
         (\<exists>d'. track_wants q d' \<and>
            get_node (fold injectTrackActionIcons_cell
              (all_paths (attr_contains ''class'' ''TrackActionsCell'') doc) doc) q =
            Some (append_child ((\<lambda>p d. track_icon) q d') cell)))"
    by (rule pass_cell [where wants = track_wants and btn = "\<lambda>p d. track_icon"
          and C = "attr_contains ''class'' ''TrackActionsCell''"])
       (simp_all add: track_cell_step track_icon_icon blind_class track_settle track_keep assms)
  then show ?thesis
    by (auto simp: injectTrackActionIcons_resume_def querySelectorAll_def)
qed

lemma track_pass_valid:
  assumes "get_node doc q = Some cell"
  shows "\<exists>cell'. get_node (injectTrackActionIcons_resume (Some i) doc) q = Some cell'"
proof -
  have "get_node (injectTrackActionIcons_resume (Some i) doc) q \<noteq> None"
    unfolding injectTrackActionIcons_resume_def option.case
    by (rule pass_valid [where wants = track_wants and btn = "\<lambda>p d. track_icon"])
       (simp_all add: track_cell_step track_icon_icon assms)
  then show ?thesis by auto
qed

lemma track_cells_served:
  assumes "q \<in> set (querySelectorAll (attr_contains ''class'' ''TrackActionsCell'') doc)"
    and "get_node doc q = Some cell"
  shows "\<exists>cell'. get_node (injectTrackActionIcons_resume (Some i) doc) q = Some cell' \<and>
           (\<forall>row titleCell.
               closest (is_tag ''tr'') (injectTrackActionIcons_resume (Some i) doc) q = Some row \<and>
               hasWarningIcon row \<and>
               querySelector (attr_contains ''class'' ''TrackRow-title'') row = Some titleCell \<and>
               trim (textContent titleCell) \<noteq> [] \<longrightarrow>
                 querySelector (has_class ''blissful-track-action-icon'') cell' \<noteq> None) \<and>
           (querySelector (attr_contains ''class'' ''TrackActionsCell'') cell = None \<longrightarrow>
              cell' = cell \<or>
              querySelector (has_class ''blissful-track-action-icon'') cell = None \<and>
              (\<exists>row titleCell. closest (is_tag ''tr'') doc q = Some row \<and> hasWarningIcon row \<and>
                 querySelector (attr_contains ''class'' ''TrackRow-title'') row = Some titleCell \<and>
                 trim (textContent titleCell) \<noteq> [] \<and>
                 cell' = append_child track_icon cell))"
proof -
  let ?d = "injectTrackActionIcons_resume (Some i) doc"
  from assms(1) have p: "q \<in> set (all_paths (attr_contains ''class'' ''TrackActionsCell'') doc)"
    by (simp add: querySelectorAll_def)
  from track_pass_valid [OF assms(2)] obtain cell' where c': "get_node ?d q = Some cell'"
    by blast
  have cover: "querySelector (has_class ''blissful-track-action-icon'') cell' \<noteq> None"
    if "closest (is_tag ''tr'') ?d q = Some row \<and> hasWarningIcon row \<and>
        querySelector (attr_contains ''class'' ''TrackRow-title'') row = Some titleCell \<and>
        trim (textContent titleCell) \<noteq> []" for row titleCell
    using track_pass_cover [OF p, of i] c' that by (auto simp: track_wants_def)
  have exact: "cell' = cell \<or>
      querySelector (has_class ''blissful-track-action-icon'') cell = None \<and>
      (\<exists>row titleCell. closest (is_tag ''tr'') doc q = Some row \<and> hasWarningIcon row \<and>
         querySelector (attr_contains ''class'' ''TrackRow-title'') row = Some titleCell \<and>
         trim (textContent titleCell) \<noteq> [] \<and> cell' = append_child track_icon cell)"
    if n: "querySelector (attr_contains ''class'' ''TrackActionsCell'') cell = None"
  proof -
    from track_pass_cell [OF p assms(2) n, of i]
    show ?thesis
    proof
      assume "get_node ?d q = Some cell"
      with c' show ?thesis by simp
    next
      assume a: "track_wants q doc \<and> get_node ?d q = Some (append_child track_icon cell)"
      with assms(2) obtain row titleCell where
        "querySelector (has_class ''blissful-track-action-icon'') cell = None"
        "closest (is_tag ''tr'') doc q = Some row" "hasWarningIcon row"
        "querySelector (attr_contains ''class'' ''TrackRow-title'') row = Some titleCell"
        "trim (textContent titleCell) \<noteq> []"
        by (auto simp: track_wants_def split: option.splits)
      with a c' show ?thesis by auto
    qed
  qed
  have 1: "\<forall>row titleCell.
               closest (is_tag ''tr'') ?d q = Some row \<and> hasWarningIcon row \<and>
               querySelector (attr_contains ''class'' ''TrackRow-title'') row = Some titleCell \<and>
               trim (textContent titleCell) \<noteq> [] \<longrightarrow>
                 querySelector (has_class ''blissful-track-action-icon'') cell' \<noteq> None"
    using cover by blast
  have 2: "querySelector (attr_contains ''class'' ''TrackActionsCell'') cell = None \<longrightarrow>
      cell' = cell \<or>
      querySelector (has_class ''blissful-track-action-icon'') cell = None \<and>
      (\<exists>row titleCell. closest (is_tag ''tr'') doc q = Some row \<and> hasWarningIcon row \<and>
         querySelector (attr_contains ''class'' ''TrackRow-title'') row = Some titleCell \<and>
         trim (textContent titleCell) \<noteq> [] \<and> cell' = append_child track_icon cell)"
    using exact by blast
  show ?thesis
    by (rule exI [of _ cell'], intro conjI) (rule c', rule 1, rule 2)
qed

subsection \<open>The scan\<close>

lemma injectIcons_album_pages:
  assumes "str_includes (pathname s) ''/wanted/missing'' \<or> str_includes (pathname s) ''/artist/''"
  shows "snd (injectIcons net (s, doc)) = injectAlbumIcons (pathname s) doc"
  using assms by (auto simp: injectIcons_def)

lemma injectIcons_track_pages:
  assumes "\<not> str_includes (pathname s) ''/wanted/missing''"
    and "\<not> str_includes (pathname s) ''/artist/''"
    and "str_includes (pathname s) ''/album/''"
  shows "snd (injectIcons net (s, doc)) =
           injectTrackActionIcons_resume (fst (extractAlbumInfo False net s)) doc"
  using assms
  by (simp add: injectIcons_def injectTrackActionIcons_def split: prod.split)

text \<open>
  Claim C2 (injector idempotence). As stated, per row, the claim fails: the passes go
  through the action cells, not through the rows. On the artist page, a row of a missing
  album with two cells whose class contains \<open>AlbumSearchCell\<close> gets a control in each of
  them, two in the row; a row of a missing album with no such cell gets none.
\<close>

theorem C2_controls_per_row_counterexample:
  "hasMissing False wide_row \<and>
   querySelectorAll (has_class ''blissful-album-icon'')
     (injectAlbumIcons ''/artist/abc'' (page [wide_row])) = [[0, 2, 0], [0, 3, 0]] \<and>
   hasMissing False bare_row \<and>
   querySelectorAll is_album_link bare_row = [[0, 0]] \<and>
   querySelectorAll (has_class ''blissful-album-icon'')
     (injectAlbumIcons ''/artist/abc'' (page [bare_row])) = []"
  by code_simp

text \<open>
  Claim C2 as amended, per action cell. Running an injector again on the page it has
  produced changes nothing: this holds of \<open>injectAlbumIcons\<close> and of the loop of
  \<open>injectTrackActionIcons\<close> for every page, and a second whole scan leaves the page of
  the first scan as it is unless the first scan had left the page untouched; a scan is
  the album pass on the list pages and the track loop, with the album info the awaited
  call returned, on an album page. After a pass, every action cell of the page is still
  where it was, and if its row qualifies as the page now reads (album pass: the row is
  classified missing and has an album link; track loop: the row has the warning icon and
  a title cell whose text is not blank) the cell contains a control with the marker
  class. A cell with no action cell inside it is after the pass either what it was, or
  what it was with one control appended, the latter only if it contained no control and
  its row qualified before the pass: so such a cell, if it had no control and its row
  qualifies, ends with exactly one. For a cell that already has a descendant with the
  marker class the body of the loop does nothing at all; and whatever the cell, the body
  either does nothing or appends one button to that cell.
\<close>

theorem C2_injector_idempotence_amended:
  "injectAlbumIcons path (injectAlbumIcons path doc) = injectAlbumIcons path doc \<and>
   injectTrackActionIcons_resume info (injectTrackActionIcons_resume info tdoc) =
     injectTrackActionIcons_resume info tdoc \<and>
   (snd (injectIcons net' (injectIcons net (s, sdoc))) = snd (injectIcons net (s, sdoc)) \<or>
    snd (injectIcons net (s, sdoc)) = sdoc) \<and>
   (str_includes (pathname s) ''/wanted/missing'' \<or> str_includes (pathname s) ''/artist/'' \<longrightarrow>
      snd (injectIcons net (s, sdoc)) = injectAlbumIcons (pathname s) sdoc) \<and>
   (\<not> str_includes (pathname s) ''/wanted/missing'' \<and> \<not> str_includes (pathname s) ''/artist/'' \<and>
    str_includes (pathname s) ''/album/'' \<longrightarrow>
      snd (injectIcons net (s, sdoc)) =
        injectTrackActionIcons_resume (fst (extractAlbumInfo False net s)) sdoc) \<and>
   (p \<in> set (querySelectorAll (attr_contains ''class'' ''AlbumSearchCell'') doc) \<and>
    get_node doc p = Some cell \<longrightarrow>
      (\<exists>cell'. get_node (injectAlbumIcons path doc) p = Some cell' \<and>
         (\<forall>row. closest (is_tag ''tr'') (injectAlbumIcons path doc) p = Some row \<and>
                hasMissing (str_includes path ''/wanted/missing'') row \<and>
                querySelector is_album_link row \<noteq> None \<longrightarrow>
                  querySelector (has_class ''blissful-album-icon'') cell' \<noteq> None) \<and>
         (querySelector (attr_contains ''class'' ''AlbumSearchCell'') cell = None \<longrightarrow>
            cell' = cell \<or>
            querySelector (has_class ''blissful-album-icon'') cell = None \<and>
            (\<exists>row t. closest (is_tag ''tr'') doc p = Some row \<and>
               hasMissing (str_includes path ''/wanted/missing'') row \<and>
               querySelector is_album_link row \<noteq> None \<and>
               cell' = append_child (album_icon t) cell)))) \<and>
   (q \<in> set (querySelectorAll (attr_contains ''class'' ''TrackActionsCell'') tdoc) \<and>
    get_node tdoc q = Some tcell \<longrightarrow>
      (\<exists>tcell'. get_node (injectTrackActionIcons_resume (Some i) tdoc) q = Some tcell' \<and>
         (\<forall>row titleCell.
             closest (is_tag ''tr'') (injectTrackActionIcons_resume (Some i) tdoc) q = Some row \<and>
             hasWarningIcon row \<and>
             querySelector (attr_contains ''class'' ''TrackRow-title'') row = Some titleCell \<and>
             trim (textContent titleCell) \<noteq> [] \<longrightarrow>
               querySelector (has_class ''blissful-track-action-icon'') tcell' \<noteq> None) \<and>
         (querySelector (attr_contains ''class'' ''TrackActionsCell'') tcell = None \<longrightarrow>
            tcell' = tcell \<or>
            querySelector (has_class ''blissful-track-action-icon'') tcell = None \<and>
            (\<exists>row titleCell. closest (is_tag ''tr'') tdoc q = Some row \<and> hasWarningIcon row \<and>
               querySelector (attr_contains ''class'' ''TrackRow-title'') row = Some titleCell \<and>
               trim (textContent titleCell) \<noteq> [] \<and>
               tcell' = append_child track_icon tcell)))) \<and>
   (get_node doc p = Some cell \<and>
    querySelector (has_class ''blissful-album-icon'') cell \<noteq> None \<longrightarrow>
      injectAlbumIcons_cell w p doc = doc) \<and>
   (get_node tdoc q = Some tcell \<and>
    querySelector (has_class ''blissful-track-action-icon'') tcell \<noteq> None \<longrightarrow>
      injectTrackActionIcons_cell q tdoc = tdoc) \<and>
   (injectAlbumIcons_cell w p doc = doc \<or>
    (\<exists>t. injectAlbumIcons_cell w p doc = appendChild p (album_icon t) doc)) \<and>
   (injectTrackActionIcons_cell q tdoc = tdoc \<or>
    injectTrackActionIcons_cell q tdoc = appendChild q track_icon tdoc)"
proof -
  have 1: "injectAlbumIcons path (injectAlbumIcons path doc) = injectAlbumIcons path doc"
    by (rule injectAlbumIcons_idempotent)
  have 2: "injectTrackActionIcons_resume info (injectTrackActionIcons_resume info tdoc) =
          injectTrackActionIcons_resume info tdoc"
    by (rule injectTrackActionIcons_resume_idempotent)
  have 3: "snd (injectIcons net' (injectIcons net (s, sdoc))) = snd (injectIcons net (s, sdoc)) \<or>
        snd (injectIcons net (s, sdoc)) = sdoc"
    by (rule injectIcons_twice)
  have 4: "str_includes (pathname s) ''/wanted/missing'' \<or> str_includes (pathname s) ''/artist/'' \<longrightarrow>
      snd (injectIcons net (s, sdoc)) = injectAlbumIcons (pathname s) sdoc"
    by (rule impI) (rule injectIcons_album_pages)
  have 5: "\<not> str_includes (pathname s) ''/wanted/missing'' \<and> \<not> str_includes (pathname s) ''/artist/'' \<and>
    str_includes (pathname s) ''/album/'' \<longrightarrow>
      snd (injectIcons net (s, sdoc)) =
        injectTrackActionIcons_resume (fst (extractAlbumInfo False net s)) sdoc"
    using injectIcons_track_pages [of s net sdoc] by blast
  note 6 = album_cells_served [of p doc cell path]
  note 7 = track_cells_served [of q tdoc tcell i]
  have 8: "get_node doc p = Some cell \<and>
    querySelector (has_class ''blissful-album-icon'') cell \<noteq> None \<longrightarrow>
      injectAlbumIcons_cell w p doc = doc"
    using album_cell_marked [of doc p cell w] by blast
  have 9: "get_node tdoc q = Some tcell \<and>
    querySelector (has_class ''blissful-track-action-icon'') tcell \<noteq> None \<longrightarrow>
      injectTrackActionIcons_cell q tdoc = tdoc"
    using track_cell_marked [of tdoc q tcell] by blast
  have 10: "injectAlbumIcons_cell w p doc = doc \<or>
        (\<exists>t. injectAlbumIcons_cell w p doc = appendChild p (album_icon t) doc)"
    by (rule album_cell_appends)
  have 11: "injectTrackActionIcons_cell q tdoc = tdoc \<or>
        injectTrackActionIcons_cell q tdoc = appendChild q track_icon tdoc"
    by (simp add: track_cell_step)
  show ?thesis
    apply (intro conjI)
              apply (rule 1)
             apply (rule 2)
            apply (rule 3)
           apply (rule 4)
          apply (rule 5)
         apply (rule impI, erule conjE, erule (1) 6)
        apply (rule impI, erule conjE, erule (1) 7)
       apply (rule 8)
      apply (rule 9)
     apply (rule 10)
    apply (rule 11)
    done
qed

text \<open>
  The amended claim on the artist page (the row of the missing album gets its one
  control, the cell of the other row stays as it is, the body of the loop does nothing
  on the cell with the control) and on the album page, and for a scan of each.
\<close>

theorem C2_injector_idempotence_amended_witness:
  "injectAlbumIcons ''/artist/abc'' (injectAlbumIcons ''/artist/abc'' artist_page) =
     injectAlbumIcons ''/artist/abc'' artist_page \<and>
   snd (injectIcons (always (Inr album_a_response)) (initial_state ''/artist/abc'', artist_page)) =
     injectAlbumIcons ''/artist/abc'' artist_page \<and>
   querySelectorAll (attr_contains ''class'' ''AlbumSearchCell'') artist_page = [[0, 2], [1, 2]] \<and>
   get_node (injectAlbumIcons ''/artist/abc'' artist_page) [0, 2] =
     Some (append_child (album_icon (ascii ''Album A''))
       (Element ''td'' [(''class'', ascii ''AlbumSearchCell-albumSearchCell-mAYyk'')] [] [])) \<and>
   querySelector (has_class ''blissful-album-icon'')
     (append_child (album_icon (ascii ''Album A''))
       (Element ''td'' [(''class'', ascii ''AlbumSearchCell-albumSearchCell-mAYyk'')] [] [])) \<noteq> None \<and>
   get_node (injectAlbumIcons ''/artist/abc'' artist_page) [1, 2] =
     Some (Element ''td'' [(''class'', ascii ''AlbumSearchCell-albumSearchCell-mAYyk'')] [] []) \<and>
   injectAlbumIcons_cell False [0, 2] (injectAlbumIcons ''/artist/abc'' artist_page) =
     injectAlbumIcons ''/artist/abc'' artist_page \<and>
   injectTrackActionIcons_resume (Some (album_info_of album_a_response))
     (injectTrackActionIcons_resume (Some (album_info_of album_a_response)) album_page) =
     injectTrackActionIcons_resume (Some (album_info_of album_a_response)) album_page \<and>
   snd (injectIcons (always (Inr album_a_response)) (initial_state ''/album/aaa'', album_page)) =
     injectTrackActionIcons_resume (Some (album_info_of album_a_response)) album_page \<and>
   querySelectorAll (attr_contains ''class'' ''TrackActionsCell'') album_page = [[0, 3]] \<and>
   get_node (injectTrackActionIcons_resume (Some (album_info_of album_a_response)) album_page)
     [0, 3] =
     Some (append_child track_icon (Element ''td'' [(''class'', ascii ''TrackActionsCell-d4'')] [] [])) \<and>
   injectTrackActionIcons_cell [0, 3]
     (injectTrackActionIcons_resume (Some (album_info_of album_a_response)) album_page) =
     injectTrackActionIcons_resume (Some (album_info_of album_a_response)) album_page"
proof -
  let ?P = "''/artist/abc''"
  let ?A = "album_info_of album_a_response"
  let ?net = "always (Inr album_a_response)"
  let ?d = "injectAlbumIcons ?P artist_page"
  let ?t = "injectTrackActionIcons_resume (Some ?A) album_page"
  let ?c0 = "Element ''td'' [(''class'', ascii ''AlbumSearchCell-albumSearchCell-mAYyk'')] [] []"
  let ?c1 = "append_child (album_icon (ascii ''Album A'')) ?c0"
  let ?k0 = "Element ''td'' [(''class'', ascii ''TrackActionsCell-d4'')] [] []"
  let ?k1 = "append_child track_icon ?k0"
  let ?r1 = "modify (append_child (album_icon (ascii ''Album A''))) [2] (album_row ''0 / 5'')"
  let ?u1 = "modify (append_child track_icon) [3] track_row"
  let ?tc = "Element ''td'' [(''class'', ascii ''TrackRow-title-b2'')] [] [Text (ascii ''Enter Sandman'')]"
  (* the pages before the pass *)
  have qa: "querySelectorAll (attr_contains ''class'' ''AlbumSearchCell'') artist_page = [[0, 2], [1, 2]]"
    by code_simp
  have qt: "querySelectorAll (attr_contains ''class'' ''TrackActionsCell'') album_page = [[0, 3]]"
    by code_simp
  have a0: "get_node artist_page [0, 2] = Some ?c0" by code_simp
  have a1: "get_node artist_page [1, 2] = Some ?c0" by code_simp
  have n0: "querySelector (attr_contains ''class'' ''AlbumSearchCell'') ?c0 = None" by code_simp
  have m0: "querySelector (has_class ''blissful-album-icon'') ?c0 = None" by code_simp
  have r2: "closest (is_tag ''tr'') artist_page [1, 2] = Some (album_row ''3 / 5'')" by code_simp
  have h2: "\<not> hasMissing False (album_row ''3 / 5'')" by code_simp
  have w: "str_includes ?P ''/wanted/missing'' = False" by code_simp
  have k0: "get_node album_page [0, 3] = Some ?k0" by code_simp
  have kn: "querySelector (attr_contains ''class'' ''TrackActionsCell'') ?k0 = None" by code_simp
  have km: "querySelector (has_class ''blissful-track-action-icon'') ?k0 = None" by code_simp
  (* the pages after the pass *)
  have g1: "get_node ?d [0, 2] = Some ?c1" by code_simp
  have r1: "closest (is_tag ''tr'') ?d [0, 2] = Some ?r1" by code_simp
  have h1: "hasMissing False ?r1" by code_simp
  have l1: "querySelector is_album_link ?r1 \<noteq> None" by code_simp
  have u1: "closest (is_tag ''tr'') ?t [0, 3] = Some ?u1" by code_simp
  have uw: "hasWarningIcon ?u1" by code_simp
  have ut: "querySelector (attr_contains ''class'' ''TrackRow-title'') ?u1 = Some ?tc" by code_simp
  have ub: "trim (textContent ?tc) \<noteq> []" by code_simp
  (* the scans *)
  have pa: "str_includes (pathname (initial_state ?P)) ''/artist/''" by code_simp
  have pt: "\<not> str_includes (pathname (initial_state ''/album/aaa'')) ''/wanted/missing''"
    "\<not> str_includes (pathname (initial_state ''/album/aaa'')) ''/artist/''"
    "str_includes (pathname (initial_state ''/album/aaa'')) ''/album/''"
    by code_simp+
  have ei: "fst (extractAlbumInfo False ?net (initial_state ''/album/aaa'')) = Some ?A"
    by (simp add: extractAlbumInfo_def extractAlbumInfo_begin_def extractAlbumInfo_resume_def
        initial_state_def always_def album_id_here_def is_id_char_def album_a_response_def)
  note T1 = C2_injector_idempotence_amended [where path = ?P and doc = artist_page
      and p = "[0, 2]" and cell = ?c0 and w = False and info = "Some ?A" and i = ?A
      and tdoc = album_page and q = "[0, 3]" and tcell = ?k0 and net = ?net and net' = ?net
      and s = "initial_state ?P" and sdoc = artist_page]
  note T2 = C2_injector_idempotence_amended [where path = ?P and doc = artist_page
      and p = "[1, 2]" and cell = ?c0 and w = False and info = "Some ?A" and i = ?A
      and tdoc = album_page and q = "[0, 3]" and tcell = ?k0 and net = ?net and net' = ?net
      and s = "initial_state ''/album/aaa''" and sdoc = album_page]
  note T3 = C2_injector_idempotence_amended [where path = ?P and doc = ?d
      and p = "[0, 2]" and cell = ?c1 and w = False and info = "Some ?A" and i = ?A
      and tdoc = ?t and q = "[0, 3]" and tcell = ?k1 and net = ?net and net' = ?net
      and s = "initial_state ?P" and sdoc = artist_page]
  have i1: "injectAlbumIcons ?P ?d = ?d" using T1 by blast
  have i2: "injectTrackActionIcons_resume (Some ?A) ?t = ?t" using T1 by blast
  have s1: "snd (injectIcons ?net (initial_state ?P, artist_page)) = ?d"
  proof -
    from T1 have "str_includes (pathname (initial_state ?P)) ''/wanted/missing'' \<or>
        str_includes (pathname (initial_state ?P)) ''/artist/'' \<longrightarrow>
        snd (injectIcons ?net (initial_state ?P, artist_page)) =
          injectAlbumIcons (pathname (initial_state ?P)) artist_page"
      by blast
    with pa show ?thesis by (simp add: initial_state_def)
  qed
  have s2: "snd (injectIcons ?net (initial_state ''/album/aaa'', album_page)) = ?t"
  proof -
    from T2 have "\<not> str_includes (pathname (initial_state ''/album/aaa'')) ''/wanted/missing'' \<and>
        \<not> str_includes (pathname (initial_state ''/album/aaa'')) ''/artist/'' \<and>
        str_includes (pathname (initial_state ''/album/aaa'')) ''/album/'' \<longrightarrow>
        snd (injectIcons ?net (initial_state ''/album/aaa'', album_page)) =
          injectTrackActionIcons_resume
            (fst (extractAlbumInfo False ?net (initial_state ''/album/aaa''))) album_page"
      by blast
    with pt ei show ?thesis by simp
  qed
  have c1: "querySelector (has_class ''blissful-album-icon'') ?c1 \<noteq> None"
  proof -
    from T1 have "[0, 2] \<in> set (querySelectorAll (attr_contains ''class'' ''AlbumSearchCell'') artist_page) \<and>
        get_node artist_page [0, 2] = Some ?c0 \<longrightarrow>
        (\<exists>cell'. get_node ?d [0, 2] = Some cell' \<and>
           (\<forall>row. closest (is_tag ''tr'') ?d [0, 2] = Some row \<and>
                  hasMissing (str_includes ?P ''/wanted/missing'') row \<and>
                  querySelector is_album_link row \<noteq> None \<longrightarrow>
                    querySelector (has_class ''blissful-album-icon'') cell' \<noteq> None) \<and>
           (querySelector (attr_contains ''class'' ''AlbumSearchCell'') ?c0 = None \<longrightarrow>
              cell' = ?c0 \<or>
              querySelector (has_class ''blissful-album-icon'') ?c0 = None \<and>
              (\<exists>row t. closest (is_tag ''tr'') artist_page [0, 2] = Some row \<and>
                 hasMissing (str_includes ?P ''/wanted/missing'') row \<and>
                 querySelector is_album_link row \<noteq> None \<and>
                 cell' = append_child (album_icon t) ?c0)))"
      by blast
    with qa a0 obtain cell' where "get_node ?d [0, 2] = Some cell'"
      and "\<forall>row. closest (is_tag ''tr'') ?d [0, 2] = Some row \<and>
                  hasMissing (str_includes ?P ''/wanted/missing'') row \<and>
                  querySelector is_album_link row \<noteq> None \<longrightarrow>
                    querySelector (has_class ''blissful-album-icon'') cell' \<noteq> None"
      by auto
    with g1 r1 h1 l1 w show ?thesis by auto
  qed
  have c2: "get_node ?d [1, 2] = Some ?c0"
  proof -
    from T2 have "[1, 2] \<in> set (querySelectorAll (attr_contains ''class'' ''AlbumSearchCell'') artist_page) \<and>
        get_node artist_page [1, 2] = Some ?c0 \<longrightarrow>
        (\<exists>cell'. get_node ?d [1, 2] = Some cell' \<and>
           (\<forall>row. closest (is_tag ''tr'') ?d [1, 2] = Some row \<and>
                  hasMissing (str_includes ?P ''/wanted/missing'') row \<and>
                  querySelector is_album_link row \<noteq> None \<longrightarrow>
                    querySelector (has_class ''blissful-album-icon'') cell' \<noteq> None) \<and>
           (querySelector (attr_contains ''class'' ''AlbumSearchCell'') ?c0 = None \<longrightarrow>
              cell' = ?c0 \<or>
              querySelector (has_class ''blissful-album-icon'') ?c0 = None \<and>
              (\<exists>row t. closest (is_tag ''tr'') artist_page [1, 2] = Some row \<and>
                 hasMissing (str_includes ?P ''/wanted/missing'') row \<and>
                 querySelector is_album_link row \<noteq> None \<and>
                 cell' = append_child (album_icon t) ?c0)))"
      by blast
    with qa a1 n0 obtain cell' where c: "get_node ?d [1, 2] = Some cell'"
      and "cell' = ?c0 \<or>
              querySelector (has_class ''blissful-album-icon'') ?c0 = None \<and>
              (\<exists>row t. closest (is_tag ''tr'') artist_page [1, 2] = Some row \<and>
                 hasMissing (str_includes ?P ''/wanted/missing'') row \<and>
                 querySelector is_album_link row \<noteq> None \<and>
                 cell' = append_child (album_icon t) ?c0)"
      by auto
    with r2 h2 w have "cell' = ?c0" by auto
    with c show ?thesis by simp
  qed
  have c3: "get_node ?t [0, 3] = Some ?k1"
  proof -
    from T1 have "[0, 3] \<in> set (querySelectorAll (attr_contains ''class'' ''TrackActionsCell'') album_page) \<and>
        get_node album_page [0, 3] = Some ?k0 \<longrightarrow>
        (\<exists>tcell'. get_node ?t [0, 3] = Some tcell' \<and>
           (\<forall>row titleCell.
               closest (is_tag ''tr'') ?t [0, 3] = Some row \<and> hasWarningIcon row \<and>
               querySelector (attr_contains ''class'' ''TrackRow-title'') row = Some titleCell \<and>
               trim (textContent titleCell) \<noteq> [] \<longrightarrow>
                 querySelector (has_class ''blissful-track-action-icon'') tcell' \<noteq> None) \<and>
           (querySelector (attr_contains ''class'' ''TrackActionsCell'') ?k0 = None \<longrightarrow>
              tcell' = ?k0 \<or>
              querySelector (has_class ''blissful-track-action-icon'') ?k0 = None \<and>
              (\<exists>row titleCell. closest (is_tag ''tr'') album_page [0, 3] = Some row \<and>
                 hasWarningIcon row \<and>
                 querySelector (attr_contains ''class'' ''TrackRow-title'') row = Some titleCell \<and>
                 trim (textContent titleCell) \<noteq> [] \<and>
                 tcell' = append_child track_icon ?k0)))"
      by blast
    with qt k0 kn obtain tcell' where c: "get_node ?t [0, 3] = Some tcell'"
      and v: "\<forall>row titleCell.
               closest (is_tag ''tr'') ?t [0, 3] = Some row \<and> hasWarningIcon row \<and>
               querySelector (attr_contains ''class'' ''TrackRow-title'') row = Some titleCell \<and>
               trim (textContent titleCell) \<noteq> [] \<longrightarrow>
                 querySelector (has_class ''blissful-track-action-icon'') tcell' \<noteq> None"
      and e: "tcell' = ?k0 \<or> tcell' = ?k1"
      by auto
    from v u1 uw ut ub have "querySelector (has_class ''blissful-track-action-icon'') tcell' \<noteq> None"
      by blast
    with e km have "tcell' = ?k1" by auto
    with c show ?thesis by simp
  qed
  have n1: "injectAlbumIcons_cell False [0, 2] ?d = ?d"
  proof -
    from T3 have "get_node ?d [0, 2] = Some ?c1 \<and>
        querySelector (has_class ''blissful-album-icon'') ?c1 \<noteq> None \<longrightarrow>
        injectAlbumIcons_cell False [0, 2] ?d = ?d"
      by blast
    with g1 c1 show ?thesis by blast
  qed
  have n2: "injectTrackActionIcons_cell [0, 3] ?t = ?t"
  proof -
    have "querySelector (has_class ''blissful-track-action-icon'') ?k1 \<noteq> None" by code_simp
    moreover from T3 have "get_node ?t [0, 3] = Some ?k1 \<and>
        querySelector (has_class ''blissful-track-action-icon'') ?k1 \<noteq> None \<longrightarrow>
        injectTrackActionIcons_cell [0, 3] ?t = ?t"
      by blast
    ultimately show ?thesis using c3 by blast
  qed
  from i1 s1 qa g1 c1 c2 n1 i2 s2 qt c3 n2 show ?thesis by (intro conjI)
qed

end
